theory Spec2Isabelle
  imports Complex_Main "HOL-Library.While_Combinator"
begin

section \<open>The occupancy grid of game.py\<close>

text \<open>
  The maze is a Python list of rows, each row a list of the integers 1 (wall) and
  0 (open), read as \<open>maze[y][x]\<close>. Python integers are unbounded, so coordinates and
  the size are \<open>int\<close>. A Python index may be negative (it then counts from the end) and
  an index out of range raises IndexError: both are written out, the exception as
  \<open>None\<close>.
\<close>

type_synonym grid = "int list list"

type_synonym frontier = "int \<times> int \<times> int \<times> int"

text \<open>The position that the index \<open>i\<close> denotes in a list of length \<open>n\<close>, if any.\<close>

definition py_pos :: "nat \<Rightarrow> int \<Rightarrow> nat option" where
  "py_pos n i =
     (if 0 \<le> i \<and> i < int n then Some (nat i)
      else if i < 0 \<and> - int n \<le> i then Some (nat (int n + i))
      else None)"

definition py_index :: "'a list \<Rightarrow> int \<Rightarrow> 'a option" where
  "py_index xs i = map_option (\<lambda>j. xs ! j) (py_pos (length xs) i)"

definition py_store :: "'a list \<Rightarrow> int \<Rightarrow> 'a \<Rightarrow> 'a list option" where
  "py_store xs i v = map_option (\<lambda>j. xs[j := v]) (py_pos (length xs) i)"

text \<open>\<open>maze[y][x]\<close> and \<open>maze[y][x] = v\<close>.\<close>

definition get_cell :: "grid \<Rightarrow> int \<Rightarrow> int \<Rightarrow> int option" where
  "get_cell maze y x =
     (case py_index maze y of None \<Rightarrow> None | Some row \<Rightarrow> py_index row x)"

definition set_cell :: "grid \<Rightarrow> int \<Rightarrow> int \<Rightarrow> int \<Rightarrow> grid option" where
  "set_cell maze y x v =
     (case py_index maze y of
        None \<Rightarrow> None
      | Some row \<Rightarrow>
          (case py_store row x v of
             None \<Rightarrow> None
           | Some row' \<Rightarrow> py_store maze y row'))"

text \<open>\<open>[[v for _ in range(size)] for _ in range(size)]\<close>: the rows are distinct lists.\<close>

definition filled :: "int \<Rightarrow> int \<Rightarrow> grid" where
  "filled sz v = replicate (nat sz) (replicate (nat sz) v)"

section \<open>generate_maze\<close>

text \<open>The four lattice directions, in the order of the source.\<close>

definition directions :: "(int \<times> int) list" where
  "directions = [(0, 2), (2, 0), (0, -2), (-2, 0)]"

text \<open>Lines 75 to 78: the in-bounds lattice neighbours of the start cell.\<close>

fun seed_frontiers :: "int \<Rightarrow> int \<Rightarrow> int \<Rightarrow> (int \<times> int) list \<Rightarrow> frontier list \<Rightarrow> frontier list" where
  "seed_frontiers sz sx sy [] fs = fs"
| "seed_frontiers sz sx sy ((dx, dy) # ds) fs =
     (let nx = sx + dx; ny = sy + dy
      in if 0 \<le> nx \<and> nx < sz \<and> 0 \<le> ny \<and> ny < sz
         then seed_frontiers sz sx sy ds (fs @ [(nx, ny, sx, sy)])
         else seed_frontiers sz sx sy ds fs)"

text \<open>
  Lines 90 to 94: the neighbours of a freshly carved cell that are in bounds and still
  walls are appended to the frontier list. The read \<open>maze[ny][nx]\<close> is only reached
  behind the bounds test, as the short-circuit \<open>and\<close> of the source has it.
\<close>

fun push_neighbours ::
  "grid \<Rightarrow> int \<Rightarrow> int \<Rightarrow> int \<Rightarrow> (int \<times> int) list \<Rightarrow> frontier list \<Rightarrow> frontier list option" where
  "push_neighbours maze sz fx fy [] fs = Some fs"
| "push_neighbours maze sz fx fy ((dx, dy) # ds) fs =
     (let nx = fx + dx; ny = fy + dy
      in if 0 \<le> nx \<and> nx < sz \<and> 0 \<le> ny \<and> ny < sz
         then (case get_cell maze ny nx of
                 None \<Rightarrow> None
               | Some c \<Rightarrow>
                   push_neighbours maze sz fx fy ds
                     (if c = 1 then fs @ [(nx, ny, fx, fy)] else fs))
         else push_neighbours maze sz fx fy ds fs)"

text \<open>
  One iteration of \<open>while frontiers\<close> (lines 82 to 94). The index \<open>i\<close> is the value of
  \<open>random.randint(0, len(frontiers) - 1)\<close>; \<open>frontiers.pop(i)\<close> returns the entry and
  removes it.
\<close>

definition gen_step :: "int \<Rightarrow> nat \<Rightarrow> grid \<times> frontier list \<Rightarrow> (grid \<times> frontier list) option" where
  "gen_step sz i st =
     (let maze = fst st; frontiers = snd st;
          (fx, fy, px, py) = frontiers ! i;
          rest = take i frontiers @ drop (Suc i) frontiers
      in case get_cell maze fy fx of
           None \<Rightarrow> None
         | Some c \<Rightarrow>
             if c = 1 then
               (case set_cell maze fy fx 0 of
                  None \<Rightarrow> None
                | Some m1 \<Rightarrow>
                    (case set_cell m1 ((fy + py) div 2) ((fx + px) div 2) 0 of
                       None \<Rightarrow> None
                     | Some m2 \<Rightarrow>
                         (case push_neighbours m2 sz fx fy directions rest of
                            None \<Rightarrow> None
                          | Some fs2 \<Rightarrow> Some (m2, fs2))))
             else Some (maze, rest))"

text \<open>The number of wall cells: what the growth loop uses up.\<close>

definition walls :: "grid \<Rightarrow> nat" where
  "walls maze = sum_list (map (\<lambda>row. length (filter (\<lambda>c. c = 1) row)) maze)"

lemma py_pos_less: "py_pos n i = Some j \<Longrightarrow> j < n"
  by (auto simp: py_pos_def split: if_splits)

lemma py_pos_inside: "0 \<le> i \<Longrightarrow> i < int n \<Longrightarrow> py_pos n i = Some (nat i)"
  by (simp add: py_pos_def)

lemma py_index_Some:
  assumes "py_index xs i = Some v"
  shows "\<exists>j<length xs. v = xs ! j \<and> (\<forall>w. py_store xs i w = Some (xs[j := w]))"
proof -
  from assms obtain j where j: "py_pos (length xs) i = Some j" and v: "v = xs ! j"
    by (auto simp: py_index_def)
  from j have "j < length xs" by (rule py_pos_less)
  with j v show ?thesis by (auto simp: py_store_def)
qed

lemma py_store_Some:
  assumes "py_store xs i w = Some ys"
  shows "\<exists>j<length xs. ys = xs[j := w] \<and> py_index xs i = Some (xs ! j)"
proof -
  from assms obtain j where j: "py_pos (length xs) i = Some j" and v: "ys = xs[j := w]"
    by (auto simp: py_store_def)
  from j have "j < length xs" by (rule py_pos_less)
  with j v show ?thesis by (auto simp: py_index_def)
qed

lemma filter_update_length:
  assumes "j < length row"
  shows "length (filter P (row[j := v])) + (if P (row ! j) then 1 else 0)
         = length (filter P row) + (if P v then 1 else 0)"
proof -
  have a: "row = take j row @ (row ! j) # drop (Suc j) row"
    using assms by (rule id_take_nth_drop)
  have b: "row[j := v] = take j row @ v # drop (Suc j) row"
    using assms by (rule upd_conv_take_nth_drop)
  have "length (filter P row) =
        length (filter P (take j row)) + (if P (row ! j) then 1 else 0)
        + length (filter P (drop (Suc j) row))"
    by (subst a) simp
  moreover have "length (filter P (row[j := v])) =
        length (filter P (take j row)) + (if P v then 1 else 0)
        + length (filter P (drop (Suc j) row))"
    by (subst b) simp
  ultimately show ?thesis by simp
qed

lemma walls_update:
  assumes "k < length maze"
  shows "walls (maze[k := row']) + length (filter (\<lambda>c. c = 1) (maze ! k))
         = walls maze + length (filter (\<lambda>c. c = 1) row')"
proof -
  let ?f = "\<lambda>row. length (filter (\<lambda>c. c = (1::int)) row)"
  have a: "maze = take k maze @ (maze ! k) # drop (Suc k) maze"
    using assms by (rule id_take_nth_drop)
  have b: "maze[k := row'] = take k maze @ row' # drop (Suc k) maze"
    using assms by (rule upd_conv_take_nth_drop)
  have "walls maze = sum_list (map ?f (take k maze)) + ?f (maze ! k)
        + sum_list (map ?f (drop (Suc k) maze))"
    unfolding walls_def by (subst a) simp
  moreover have "walls (maze[k := row']) = sum_list (map ?f (take k maze)) + ?f row'
        + sum_list (map ?f (drop (Suc k) maze))"
    unfolding walls_def by (subst b) simp
  ultimately show ?thesis by simp
qed

lemma set_cell_walls:
  assumes "set_cell maze y x 0 = Some m'"
  shows "\<exists>c. get_cell maze y x = Some c \<and> walls m' + (if c = 1 then 1 else 0) = walls maze"
proof -
  from assms obtain row row' where r: "py_index maze y = Some row"
    and s: "py_store row x 0 = Some row'" and t: "py_store maze y row' = Some m'"
    by (auto simp: set_cell_def split: option.splits)
  from py_index_Some [OF r] obtain k where k: "k < length maze" "row = maze ! k"
    and k': "\<forall>w. py_store maze y w = Some (maze[k := w])"
    by blast
  from py_store_Some [OF s] obtain j where j: "j < length row" "row' = row[j := 0]"
    and j': "py_index row x = Some (row ! j)"
    by blast
  have m': "m' = maze[k := row']" using t k' by simp
  have g: "get_cell maze y x = Some (row ! j)"
    by (simp add: get_cell_def r j')
  have "length (filter (\<lambda>c. c = 1) row') + (if row ! j = 1 then 1 else 0)
        = length (filter (\<lambda>c. c = 1) row)"
    using filter_update_length [OF j(1), of "\<lambda>c. c = 1" 0] j(2) by simp
  moreover have "walls m' + length (filter (\<lambda>c. c = 1) row)
        = walls maze + length (filter (\<lambda>c. c = 1) row')"
    using walls_update [OF k(1), of row'] m' k(2) by simp
  ultimately have "walls m' + (if row ! j = 1 then 1 else 0) = walls maze"
    by (simp split: if_splits)
  with g show ?thesis by blast
qed

lemma push_neighbours_length:
  "push_neighbours maze sz fx fy ds fs = Some fs' \<Longrightarrow> length fs \<le> length fs'"
proof (induction ds arbitrary: fs)
  case Nil
  then show ?case by simp
next
  case (Cons d ds)
  obtain dx dy where d: "d = (dx, dy)" by (cases d)
  from Cons.prems show ?case
    unfolding d
    by (auto simp: Let_def split: if_splits option.splits dest!: Cons.IH)
qed

text \<open>
  A step that carves uses up a wall cell; a step that does not carve shortens the
  frontier list.
\<close>

lemma gen_step_decreases:
  assumes "gen_step sz i (maze, fs) = Some (m', fs')" and "i < length fs"
  shows "walls m' < walls maze \<or> (walls m' = walls maze \<and> length fs' < length fs)"
proof -
  obtain fx fy px py where f: "fs ! i = (fx, fy, px, py)" by (cases "fs ! i")
  let ?rest = "take i fs @ drop (Suc i) fs"
  have len: "length ?rest < length fs" using assms(2) by simp
  from assms(1) obtain c where c: "get_cell maze fy fx = Some c"
    by (auto simp: gen_step_def f Let_def split: option.splits)
  show ?thesis
  proof (cases "c = 1")
    case False
    with assms(1) c have "m' = maze" "fs' = ?rest"
      by (auto simp: gen_step_def f Let_def)
    with len show ?thesis by simp
  next
    case True
    with assms(1) c obtain m1 where m1: "set_cell maze fy fx 0 = Some m1"
      and m2: "set_cell m1 ((fy + py) div 2) ((fx + px) div 2) 0 = Some m'"
      by (auto simp: gen_step_def f Let_def split: option.splits)
    from set_cell_walls [OF m1] c True have "walls m1 + 1 = walls maze"
      by auto
    moreover from set_cell_walls [OF m2] have "walls m' \<le> walls m1"
      by (auto split: if_splits)
    ultimately show ?thesis by simp
  qed
qed

text \<open>
  The loop \<open>while frontiers\<close>. The random source is a sequence \<open>rnd\<close>: the \<open>k\<close>-th pop
  takes the index \<open>rnd k mod len(frontiers)\<close>, which ranges over every value that
  \<open>random.randint(0, len(frontiers) - 1)\<close> can return.
\<close>

function gen_loop ::
  "(nat \<Rightarrow> nat) \<Rightarrow> int \<Rightarrow> nat \<Rightarrow> grid \<times> frontier list \<Rightarrow> (grid \<times> frontier list) option" where
  "gen_loop rnd sz k st =
     (if snd st = [] then Some st
      else (case gen_step sz (rnd k mod length (snd st)) st of
              None \<Rightarrow> None
            | Some st' \<Rightarrow> gen_loop rnd sz (Suc k) st'))"
  by pat_completeness auto
termination
proof (relation "inv_image (less_than <*lex*> less_than)
                   (\<lambda>(rnd, sz, k, st). (walls (fst st), length (snd st)))")
  show "wf (inv_image (less_than <*lex*> less_than)
             (\<lambda>(rnd, sz, k, st). (walls (fst st), length (snd st))))"
    by (intro wf_inv_image wf_lex_prod wf_less_than)
next
  fix rnd :: "nat \<Rightarrow> nat" and sz :: int and k :: nat
    and st st' :: "grid \<times> frontier list"
  assume ne: "snd st \<noteq> []"
    and step: "gen_step sz (rnd k mod length (snd st)) st = Some st'"
  have "rnd k mod length (snd st) < length (snd st)" using ne by simp
  with step have "walls (fst st') < walls (fst st)
      \<or> (walls (fst st') = walls (fst st) \<and> length (snd st') < length (snd st))"
    using gen_step_decreases [of sz "rnd k mod length (snd st)" "fst st" "snd st" "fst st'" "snd st'"]
    by simp
  then show "((rnd, sz, Suc k, st'), (rnd, sz, k, st))
      \<in> inv_image (less_than <*lex*> less_than)
          (\<lambda>(rnd, sz, k, st). (walls (fst st), length (snd st)))"
    by auto
qed

text \<open>
  The body of the \<open>try\<close> block (lines 65 to 101). \<open>log_ok\<close> tells whether the call of the
  logger at line 100 returned; \<open>None\<close> is an exception reaching the handler.
\<close>

definition generate_grown :: "(nat \<Rightarrow> nat) \<Rightarrow> int \<Rightarrow> grid option" where
  "generate_grown rnd sz =
     (let maze = filled sz 1; start_x = sz div 2; start_y = sz div 2
      in case set_cell maze start_y start_x 0 of
           None \<Rightarrow> None
         | Some m0 \<Rightarrow>
             map_option fst
               (gen_loop rnd sz 0 (m0, seed_frontiers sz start_x start_y directions [])))"

definition generate_try :: "(nat \<Rightarrow> nat) \<Rightarrow> bool \<Rightarrow> int \<Rightarrow> grid option" where
  "generate_try rnd log_ok sz =
     (case generate_grown rnd sz of
        None \<Rightarrow> None
      | Some m1 \<Rightarrow>
          (case set_cell m1 1 1 0 of
             None \<Rightarrow> None
           | Some m2 \<Rightarrow>
               (case set_cell m2 (sz - 2) (sz - 2) 0 of
                  None \<Rightarrow> None
                | Some m3 \<Rightarrow> if log_ok then Some m3 else None)))"

text \<open>
  The handler (lines 106 to 112): an open room with a wall border. Each index of the
  four stores is 0, \<open>size - 1\<close> or \<open>i\<close> from \<open>range(size)\<close>, all within a grid of that
  size, so the stores are written as list updates.
\<close>

definition put :: "grid \<Rightarrow> int \<Rightarrow> int \<Rightarrow> int \<Rightarrow> grid" where
  "put maze y x v = maze[nat y := (maze ! nat y)[nat x := v]]"

definition border_step :: "int \<Rightarrow> grid \<Rightarrow> int \<Rightarrow> grid" where
  "border_step sz m i = put (put (put (put m 0 i 1) (sz - 1) i 1) i 0 1) i (sz - 1) 1"

definition simple_maze :: "int \<Rightarrow> grid" where
  "simple_maze sz = foldl (border_step sz) (filled sz 0) [0..sz - 1]"

definition generate_maze :: "(nat \<Rightarrow> nat) \<Rightarrow> bool \<Rightarrow> int \<Rightarrow> grid" where
  "generate_maze rnd log_ok sz =
     (case generate_try rnd log_ok sz of
        Some maze \<Rightarrow> maze
      | None \<Rightarrow> simple_maze sz)"

section \<open>Reading and writing inside a square grid\<close>

definition inb :: "int \<Rightarrow> int \<Rightarrow> int \<Rightarrow> bool" where
  "inb sz x y = (0 \<le> x \<and> x < sz \<and> 0 \<le> y \<and> y < sz)"

definition wf_grid :: "int \<Rightarrow> grid \<Rightarrow> bool" where
  "wf_grid sz maze = (length maze = nat sz \<and> list_all (\<lambda>row. length row = nat sz) maze)"

lemma wf_grid_row:
  "wf_grid sz maze \<Longrightarrow> 0 \<le> y \<Longrightarrow> y < sz \<Longrightarrow> length (maze ! nat y) = nat sz"
  by (simp add: wf_grid_def list_all_length)

lemma wf_filled: "wf_grid sz (filled sz v)"
  by (simp add: wf_grid_def filled_def list_all_length)

lemma get_cell_nth:
  assumes "wf_grid sz maze" and "inb sz x y"
  shows "get_cell maze y x = Some (maze ! nat y ! nat x)"
proof -
  have y: "0 \<le> y" "y < sz" and x: "0 \<le> x" "x < sz" using assms(2) by (auto simp: inb_def)
  have l: "int (length maze) = sz" using assms(1) y by (simp add: wf_grid_def)
  have r: "int (length (maze ! nat y)) = sz"
    using wf_grid_row [OF assms(1) y] y by simp
  have "py_index maze y = Some (maze ! nat y)"
    using y l by (simp add: py_index_def py_pos_inside)
  moreover have "py_index (maze ! nat y) x = Some (maze ! nat y ! nat x)"
    using x r by (simp add: py_index_def py_pos_inside)
  ultimately show ?thesis by (simp add: get_cell_def)
qed

lemma set_cell_put:
  assumes "wf_grid sz maze" and "inb sz x y"
  shows "set_cell maze y x v = Some (put maze y x v)"
proof -
  have y: "0 \<le> y" "y < sz" and x: "0 \<le> x" "x < sz" using assms(2) by (auto simp: inb_def)
  have l: "int (length maze) = sz" using assms(1) y by (simp add: wf_grid_def)
  have r: "int (length (maze ! nat y)) = sz"
    using wf_grid_row [OF assms(1) y] y by simp
  have "py_index maze y = Some (maze ! nat y)"
    using y l by (simp add: py_index_def py_pos_inside)
  moreover have "py_store (maze ! nat y) x v = Some ((maze ! nat y)[nat x := v])"
    using x r by (simp add: py_store_def py_pos_inside)
  moreover have "py_store maze y ((maze ! nat y)[nat x := v]) = Some (put maze y x v)"
    using y l by (simp add: py_store_def py_pos_inside put_def)
  ultimately show ?thesis by (simp add: set_cell_def)
qed

lemma wf_put:
  assumes "wf_grid sz maze"
  shows "wf_grid sz (put maze y x v)"
proof (cases "nat y < length maze")
  case True
  then show ?thesis using assms
    by (auto simp: wf_grid_def put_def list_all_length nth_list_update)
next
  case False
  then have "put maze y x v = maze" by (simp add: put_def list_update_beyond)
  then show ?thesis using assms by simp
qed

lemma nth_put:
  assumes "wf_grid sz maze" and "inb sz x y" and "inb sz x' y'"
  shows "put maze y x v ! nat y' ! nat x'
         = (if x' = x \<and> y' = y then v else maze ! nat y' ! nat x')"
proof -
  have y: "0 \<le> y" "y < sz" and x: "0 \<le> x" "x < sz" using assms(2) by (auto simp: inb_def)
  have y': "0 \<le> y'" "y' < sz" and x': "0 \<le> x'" "x' < sz"
    using assms(3) by (auto simp: inb_def)
  have l: "nat y < length maze" "nat y' < length maze"
    using assms(1) y y' by (auto simp: wf_grid_def)
  have r: "nat x < length (maze ! nat y)" "nat x' < length (maze ! nat y')"
    using wf_grid_row [OF assms(1) y] wf_grid_row [OF assms(1) y'] x x' by auto
  have e: "nat y' = nat y \<longleftrightarrow> y' = y" "nat x' = nat x \<longleftrightarrow> x' = x"
    using x x' y y' by auto
  show ?thesis using l r e
    by (auto simp: put_def nth_list_update)
qed

lemma get_cell_put:
  assumes "wf_grid sz maze" and "inb sz x y" and "inb sz x' y'"
  shows "get_cell (put maze y x v) y' x'
         = (if x' = x \<and> y' = y then Some v else get_cell maze y' x')"
  using get_cell_nth [OF wf_put [OF assms(1)] assms(3), of y x v]
    get_cell_nth [OF assms(1) assms(3)] nth_put [OF assms, of v]
  by simp

lemma get_cell_filled: "inb sz x y \<Longrightarrow> get_cell (filled sz v) y x = Some v"
  using get_cell_nth [OF wf_filled, of sz x y v]
  by (simp add: filled_def inb_def)

subsection \<open>The fallback room\<close>

lemma wf_border_step: "wf_grid sz m \<Longrightarrow> wf_grid sz (border_step sz m i)"
  by (simp add: border_step_def wf_put)

lemma get_cell_border_step:
  assumes "wf_grid sz m" and "0 \<le> i" and "i < sz"
    and "0 < x" and "x < sz - 1" and "0 < y" and "y < sz - 1"
  shows "get_cell (border_step sz m i) y x = get_cell m y x"
proof -
  have a: "inb sz i 0" "inb sz i (sz - 1)" "inb sz 0 i" "inb sz (sz - 1) i" "inb sz x y"
    using assms by (auto simp: inb_def)
  show ?thesis
    unfolding border_step_def
    using assms(4-7)
    by (simp add: get_cell_put [OF _ _ a(5)] wf_put assms(1) a)
qed

lemma get_cell_border_fold:
  assumes "wf_grid sz m" and "\<forall>i\<in>set is. 0 \<le> i \<and> i < sz"
    and "0 < x" and "x < sz - 1" and "0 < y" and "y < sz - 1"
  shows "get_cell (foldl (border_step sz) m is) y x = get_cell m y x"
  using assms(1,2)
proof (induction "is" arbitrary: m)
  case Nil
  then show ?case by simp
next
  case (Cons i "is")
  have "get_cell (foldl (border_step sz) (border_step sz m i) is) y x
        = get_cell (border_step sz m i) y x"
    using Cons.prems by (intro Cons.IH wf_border_step) auto
  also have "\<dots> = get_cell m y x"
    using Cons.prems assms(3-6) by (intro get_cell_border_step) auto
  finally show ?case by simp
qed

lemma wf_simple_maze: "wf_grid sz (simple_maze sz)"
proof -
  have "wf_grid sz m \<Longrightarrow> wf_grid sz (foldl (border_step sz) m is)" for m "is"
    by (induction "is" arbitrary: m) (simp_all add: wf_border_step)
  then show ?thesis unfolding simple_maze_def using wf_filled by blast
qed

lemma simple_maze_interior:
  assumes "0 < x" and "x < sz - 1" and "0 < y" and "y < sz - 1"
  shows "get_cell (simple_maze sz) y x = Some 0"
proof -
  have "get_cell (simple_maze sz) y x = get_cell (filled sz 0) y x"
    unfolding simple_maze_def
    using assms by (intro get_cell_border_fold wf_filled) auto
  then show ?thesis using assms by (simp add: get_cell_filled inb_def)
qed

section \<open>Rooms, passages and the shape of the generated maze\<close>

text \<open>
  The growth works on a lattice of stride 2 through the centre cell: a room is a cell
  at even offsets from the centre in both axes, a passage is a cell between two
  lattice-adjacent rooms (one offset even, one odd), and the remaining cells are
  pillars.
\<close>

definition is_room :: "int \<Rightarrow> int \<Rightarrow> int \<Rightarrow> bool" where
  "is_room sz x y = (even (x - sz div 2) \<and> even (y - sz div 2))"

definition is_passage :: "int \<Rightarrow> int \<Rightarrow> int \<Rightarrow> bool" where
  "is_passage sz x y = (even (x - sz div 2) \<noteq> even (y - sz div 2))"

definition coords :: "int \<Rightarrow> (int \<times> int) list" where
  "coords sz = concat (map (\<lambda>y. map (\<lambda>x. (x, y)) [0..sz - 1]) [0..sz - 1])"

definition opn :: "int \<Rightarrow> grid \<Rightarrow> int \<Rightarrow> int \<Rightarrow> bool" where
  "opn sz maze x y = (inb sz x y \<and> get_cell maze y x = Some 0)"

definition open_rooms :: "int \<Rightarrow> grid \<Rightarrow> (int \<times> int) list" where
  "open_rooms sz maze = filter (\<lambda>(x, y). is_room sz x y \<and> opn sz maze x y) (coords sz)"

definition open_passages :: "int \<Rightarrow> grid \<Rightarrow> (int \<times> int) list" where
  "open_passages sz maze = filter (\<lambda>(x, y). is_passage sz x y \<and> opn sz maze x y) (coords sz)"

definition open_pillars :: "int \<Rightarrow> grid \<Rightarrow> (int \<times> int) list" where
  "open_pillars sz maze =
     filter (\<lambda>(x, y). \<not> is_room sz x y \<and> \<not> is_passage sz x y \<and> opn sz maze x y) (coords sz)"

definition passage_ends :: "int \<Rightarrow> int \<Rightarrow> int \<Rightarrow> (int \<times> int) list" where
  "passage_ends sz x y =
     (if even (x - sz div 2) then [(x, y - 1), (x, y + 1)] else [(x - 1, y), (x + 1, y)])"

definition joins_open_rooms :: "int \<Rightarrow> grid \<Rightarrow> int \<times> int \<Rightarrow> bool" where
  "joins_open_rooms sz maze p =
     list_all (\<lambda>(a, b). opn sz maze a b) (passage_ends sz (fst p) (snd p))"

inductive linked :: "int \<Rightarrow> grid \<Rightarrow> int \<Rightarrow> int \<Rightarrow> bool" for sz :: int and maze :: grid where
  centre: "opn sz maze (sz div 2) (sz div 2) \<Longrightarrow> linked sz maze (sz div 2) (sz div 2)"
| hop: "linked sz maze px py \<Longrightarrow> (dx, dy) \<in> set directions
        \<Longrightarrow> opn sz maze (px + dx div 2) (py + dy div 2)
        \<Longrightarrow> opn sz maze (px + dx) (py + dy)
        \<Longrightarrow> linked sz maze (px + dx) (py + dy)"

text \<open>
  Graphs grown from the centre room by attaching one new room through one new passage
  at a time: exactly the trees rooted at the centre. \<open>V\<close> is the set of rooms, \<open>E\<close> the
  set of passage cells, each the midpoint of the two rooms it joins.
\<close>

inductive leaf_grown :: "int \<Rightarrow> (int \<times> int) set \<Rightarrow> (int \<times> int) set \<Rightarrow> bool" for sz :: int where
  root: "leaf_grown sz {(sz div 2, sz div 2)} {}"
| attach: "leaf_grown sz V E \<Longrightarrow> (px, py) \<in> V \<Longrightarrow> (fx, fy) \<notin> V
           \<Longrightarrow> (fx - px, fy - py) \<in> set directions
           \<Longrightarrow> leaf_grown sz (insert (fx, fy) V) (insert ((fx + px) div 2, (fy + py) div 2) E)"

lemma set_coords: "set (coords sz) = {(x, y). inb sz x y}"
  by (auto simp: coords_def inb_def)

lemma distinct_coords: "distinct (coords sz)"
  unfolding coords_def
  by (rule distinct_concat) (auto simp: distinct_map inj_on_def)

lemma in_directions:
  "(dx, dy) \<in> set directions \<longleftrightarrow>
     (dx = 0 \<and> (dy = 2 \<or> dy = -2)) \<or> (dy = 0 \<and> (dx = 2 \<or> dx = -2))"
  by (auto simp: directions_def)

lemma length_open_rooms:
  "length (open_rooms sz m) = card {(x, y). is_room sz x y \<and> opn sz m x y}"
proof -
  have "{p. (case p of (x, y) \<Rightarrow> is_room sz x y \<and> opn sz m x y)} \<inter> set (coords sz)
        = {(x, y). is_room sz x y \<and> opn sz m x y}"
    by (auto simp: set_coords opn_def)
  then show ?thesis
    by (simp add: open_rooms_def distinct_length_filter [OF distinct_coords])
qed

lemma length_open_passages:
  "length (open_passages sz m) = card {(x, y). is_passage sz x y \<and> opn sz m x y}"
proof -
  have "{p. (case p of (x, y) \<Rightarrow> is_passage sz x y \<and> opn sz m x y)} \<inter> set (coords sz)
        = {(x, y). is_passage sz x y \<and> opn sz m x y}"
    by (auto simp: set_coords opn_def)
  then show ?thesis
    by (simp add: open_passages_def distinct_length_filter [OF distinct_coords])
qed

lemma finite_opn: "finite {(x, y). P x y \<and> opn sz m x y}"
proof (rule finite_subset)
  show "{(x, y). P x y \<and> opn sz m x y} \<subseteq> {0..sz} \<times> {0..sz}"
    by (auto simp: opn_def inb_def)
qed simp

lemma opn_put:
  assumes "wf_grid sz m" and "inb sz a b"
  shows "opn sz (put m b a 0) x y \<longleftrightarrow> opn sz m x y \<or> (x = a \<and> y = b)"
  using assms get_cell_put [OF assms(1) assms(2), of x y 0]
  by (auto simp: opn_def)

lemma linked_mono:
  assumes "linked sz m x y" and "\<And>a b. opn sz m a b \<Longrightarrow> opn sz m' a b"
  shows "linked sz m' x y"
  using assms(1)
proof induction
  case centre
  then show ?case by (intro linked.centre assms(2))
next
  case (hop px py dx dy)
  then show ?case by (intro linked.hop assms(2))
qed

lemma frontier_geometry:
  assumes d: "(fx - px, fy - py) \<in> set directions" and r: "is_room sz px py"
  defines "mx \<equiv> (fx + px) div 2" and "my \<equiv> (fy + py) div 2"
  shows "is_room sz fx fy" and "is_passage sz mx my" and "\<not> is_room sz mx my"
    and "set (passage_ends sz mx my) = {(px, py), (fx, fy)}"
    and "mx = px + (fx - px) div 2" and "my = py + (fy - py) div 2"
    and "\<not> is_passage sz fx fy"
    and "inb sz px py \<Longrightarrow> inb sz fx fy \<Longrightarrow> inb sz mx my"
proof -
  from d consider
      (a) "fx = px" "fy = py + 2" | (b) "fx = px" "fy = py - 2"
    | (c) "fy = py" "fx = px + 2" | (d) "fy = py" "fx = px - 2"
    by (auto simp: in_directions)
  then have m: "(mx = px \<and> my = py + 1 \<and> fx = px \<and> fy = py + 2)
      \<or> (mx = px \<and> my = py - 1 \<and> fx = px \<and> fy = py - 2)
      \<or> (mx = px + 1 \<and> my = py \<and> fx = px + 2 \<and> fy = py)
      \<or> (mx = px - 1 \<and> my = py \<and> fx = px - 2 \<and> fy = py)"
    unfolding mx_def my_def by cases auto
  from r have e: "even (px - sz div 2)" "even (py - sz div 2)" by (auto simp: is_room_def)
  show "is_room sz fx fy" using m e by (auto simp: is_room_def)
  show "is_passage sz mx my" using m e by (auto simp: is_passage_def)
  show "\<not> is_room sz mx my" using m e by (auto simp: is_room_def)
  show "set (passage_ends sz mx my) = {(px, py), (fx, fy)}"
    using m e by (auto simp: passage_ends_def)
  show "mx = px + (fx - px) div 2" using m by auto
  show "my = py + (fy - py) div 2" using m by auto
  show "\<not> is_passage sz fx fy" using m e by (auto simp: is_passage_def)
  show "inb sz px py \<Longrightarrow> inb sz fx fy \<Longrightarrow> inb sz mx my"
    using m by (auto simp: inb_def)
qed

definition gen_inv :: "int \<Rightarrow> grid \<times> frontier list \<Rightarrow> bool" where
  "gen_inv sz st =
     (wf_grid sz (fst st) \<and>
      (\<forall>fx fy px py. (fx, fy, px, py) \<in> set (snd st) \<longrightarrow>
          opn sz (fst st) px py \<and> is_room sz px py \<and> inb sz fx fy
          \<and> (fx - px, fy - py) \<in> set directions) \<and>
      (\<forall>x y. opn sz (fst st) x y \<longrightarrow>
          is_room sz x y \<or> (is_passage sz x y \<and> joins_open_rooms sz (fst st) (x, y))) \<and>
      (\<forall>x y. is_room sz x y \<and> opn sz (fst st) x y \<longrightarrow> linked sz (fst st) x y) \<and>
      leaf_grown sz {(x, y). is_room sz x y \<and> opn sz (fst st) x y}
        {(x, y). is_passage sz x y \<and> opn sz (fst st) x y} \<and>
      card {(x, y). is_room sz x y \<and> opn sz (fst st) x y}
        = card {(x, y). is_passage sz x y \<and> opn sz (fst st) x y} + 1)"

lemma joins_mono:
  assumes "joins_open_rooms sz m p" and "\<And>a b. opn sz m a b \<Longrightarrow> opn sz m' a b"
  shows "joins_open_rooms sz m' p"
  using assms by (auto simp: joins_open_rooms_def list_all_iff)

lemma carve_inv:
  assumes inv: "gen_inv sz (m, fs)"
    and f: "(fx, fy, px, py) \<in> set fs"
    and wall: "get_cell m fy fx = Some 1"
    and wf2: "wf_grid sz m2"
    and o2: "\<And>x y. opn sz m2 x y \<longleftrightarrow>
               opn sz m x y \<or> (x = fx \<and> y = fy) \<or> (x = (fx + px) div 2 \<and> y = (fy + py) div 2)"
    and fs2: "\<And>e. e \<in> set fs2 \<Longrightarrow> e \<in> set fs \<or>
               (\<exists>dx dy. (dx, dy) \<in> set directions \<and> inb sz (fx + dx) (fy + dy)
                  \<and> e = (fx + dx, fy + dy, fx, fy))"
  shows "gen_inv sz (m2, fs2)"
proof -
  define mx where "mx = (fx + px) div 2"
  define my where "my = (fy + py) div 2"
  from inv f have p: "opn sz m px py" "is_room sz px py" "inb sz fx fy"
    and d: "(fx - px, fy - py) \<in> set directions"
    by (auto simp: gen_inv_def)
  note g = frontier_geometry [OF d p(2), folded mx_def my_def]
  have mono: "\<And>a b. opn sz m a b \<Longrightarrow> opn sz m2 a b" by (simp add: o2)
  have of2: "opn sz m2 fx fy" and om2: "opn sz m2 mx my" and op2: "opn sz m2 px py"
    using p(1) by (simp_all add: o2 mx_def my_def)
  have nf: "\<not> opn sz m fx fy" using wall by (simp add: opn_def)
  have j2: "joins_open_rooms sz m2 (mx, my)"
    using g(4) of2 op2 by (auto simp: joins_open_rooms_def list_all_iff)
  have nm: "\<not> opn sz m mx my"
  proof
    assume a: "opn sz m mx my"
    with inv g(3) have "joins_open_rooms sz m (mx, my)" by (auto simp: gen_inv_def)
    with g(4) have "opn sz m fx fy" by (auto simp: joins_open_rooms_def list_all_iff)
    with nf show False ..
  qed
  have i2: "\<forall>a b c e. (a, b, c, e) \<in> set fs2 \<longrightarrow>
          opn sz m2 c e \<and> is_room sz c e \<and> inb sz a b \<and> (a - c, b - e) \<in> set directions"
  proof (intro allI impI)
    fix a b c e assume "(a, b, c, e) \<in> set fs2"
    from fs2 [OF this] show "opn sz m2 c e \<and> is_room sz c e \<and> inb sz a b
        \<and> (a - c, b - e) \<in> set directions"
    proof
      assume "(a, b, c, e) \<in> set fs"
      with inv mono show ?thesis by (auto simp: gen_inv_def)
    next
      assume "\<exists>dx dy. (dx, dy) \<in> set directions \<and> inb sz (fx + dx) (fy + dy)
                  \<and> (a, b, c, e) = (fx + dx, fy + dy, fx, fy)"
      then show ?thesis using of2 g(1) by auto
    qed
  qed
  have i3: "\<forall>x y. opn sz m2 x y \<longrightarrow>
          is_room sz x y \<or> (is_passage sz x y \<and> joins_open_rooms sz m2 (x, y))"
  proof (intro allI impI)
    fix x y assume "opn sz m2 x y"
    then consider "opn sz m x y" | "x = fx" "y = fy" | "x = mx" "y = my"
      by (auto simp: o2 mx_def my_def)
    then show "is_room sz x y \<or> (is_passage sz x y \<and> joins_open_rooms sz m2 (x, y))"
    proof cases
      case 1
      with inv have "is_room sz x y \<or> (is_passage sz x y \<and> joins_open_rooms sz m (x, y))"
        by (auto simp: gen_inv_def)
      then show ?thesis
      proof
        assume "is_room sz x y" then show ?thesis ..
      next
        assume b: "is_passage sz x y \<and> joins_open_rooms sz m (x, y)"
        then have "joins_open_rooms sz m (x, y)" ..
        then have "joins_open_rooms sz m2 (x, y)" by (rule joins_mono) (rule mono)
        with b show ?thesis by simp
      qed
    next
      case 2
      then show ?thesis using g(1) by simp
    next
      case 3
      then show ?thesis using g(2) j2 by simp
    qed
  qed
  have "linked sz m px py" using inv p(1,2) by (auto simp: gen_inv_def)
  then have lp: "linked sz m2 px py" by (rule linked_mono) (rule mono)
  have "linked sz m2 (px + (fx - px)) (py + (fy - py))"
    using lp d
  proof (rule linked.hop)
    show "opn sz m2 (px + (fx - px) div 2) (py + (fy - py) div 2)"
      using om2 g(5,6) by simp
    show "opn sz m2 (px + (fx - px)) (py + (fy - py))" using of2 by simp
  qed
  then have lf: "linked sz m2 fx fy" by simp
  have i4: "\<forall>x y. is_room sz x y \<and> opn sz m2 x y \<longrightarrow> linked sz m2 x y"
  proof (intro allI impI)
    fix x y assume a: "is_room sz x y \<and> opn sz m2 x y"
    then consider "opn sz m x y" | "x = fx" "y = fy" | "x = mx" "y = my"
      by (auto simp: o2 mx_def my_def)
    then show "linked sz m2 x y"
    proof cases
      case 1
      with inv a have "linked sz m x y" by (auto simp: gen_inv_def)
      then show ?thesis by (rule linked_mono) (rule mono)
    next
      case 2
      then show ?thesis using lf by simp
    next
      case 3
      then show ?thesis using a g(3) by simp
    qed
  qed
  have r2: "{(x, y). is_room sz x y \<and> opn sz m2 x y}
            = insert (fx, fy) {(x, y). is_room sz x y \<and> opn sz m x y}"
    using g(1,3) by (auto simp: o2 mx_def my_def)
  have p2: "{(x, y). is_passage sz x y \<and> opn sz m2 x y}
            = insert (mx, my) {(x, y). is_passage sz x y \<and> opn sz m x y}"
    using g(2,7) by (auto simp: o2 mx_def my_def)
  have "card {(x, y). is_room sz x y \<and> opn sz m2 x y}
        = Suc (card {(x, y). is_room sz x y \<and> opn sz m x y})"
    unfolding r2 using nf by (subst card_insert_disjoint) (auto intro: finite_opn)
  moreover have "card {(x, y). is_passage sz x y \<and> opn sz m2 x y}
        = Suc (card {(x, y). is_passage sz x y \<and> opn sz m x y})"
    unfolding p2 using nm by (subst card_insert_disjoint) (auto intro: finite_opn)
  moreover from inv have "card {(x, y). is_room sz x y \<and> opn sz m x y}
        = card {(x, y). is_passage sz x y \<and> opn sz m x y} + 1"
    by (simp add: gen_inv_def)
  ultimately have i5: "card {(x, y). is_room sz x y \<and> opn sz m2 x y}
        = card {(x, y). is_passage sz x y \<and> opn sz m2 x y} + 1"
    by simp
  have "leaf_grown sz {(x, y). is_room sz x y \<and> opn sz m x y}
          {(x, y). is_passage sz x y \<and> opn sz m x y}"
    using inv by (simp add: gen_inv_def)
  then have "leaf_grown sz (insert (fx, fy) {(x, y). is_room sz x y \<and> opn sz m x y})
          (insert ((fx + px) div 2, (fy + py) div 2) {(x, y). is_passage sz x y \<and> opn sz m x y})"
    by (rule leaf_grown.attach) (use p nf d in auto)
  then have i6: "leaf_grown sz {(x, y). is_room sz x y \<and> opn sz m2 x y}
          {(x, y). is_passage sz x y \<and> opn sz m2 x y}"
    unfolding r2 p2 mx_def my_def .
  show ?thesis
    unfolding gen_inv_def fst_conv snd_conv
    using wf2 i2 i3 i4 i5 i6 by blast
qed

lemma push_neighbours_Some:
  assumes "wf_grid sz m"
  shows "\<exists>fs'. push_neighbours m sz fx fy ds fs = Some fs' \<and>
           (\<forall>e\<in>set fs'. e \<in> set fs \<or>
              (\<exists>dx dy. (dx, dy) \<in> set ds \<and> inb sz (fx + dx) (fy + dy)
                 \<and> e = (fx + dx, fy + dy, fx, fy)))"
proof (induction ds arbitrary: fs)
  case Nil
  then show ?case by simp
next
  case (Cons d ds)
  obtain dx dy where d: "d = (dx, dy)" by (cases d)
  show ?case
  proof (cases "inb sz (fx + dx) (fy + dy)")
    case False
    then have "push_neighbours m sz fx fy (d # ds) fs = push_neighbours m sz fx fy ds fs"
      by (auto simp: d inb_def Let_def)
    with Cons.IH [of fs] show ?thesis by fastforce
  next
    case True
    let ?fs1 = "if m ! nat (fy + dy) ! nat (fx + dx) = 1
                then fs @ [(fx + dx, fy + dy, fx, fy)] else fs"
    have "push_neighbours m sz fx fy (d # ds) fs = push_neighbours m sz fx fy ds ?fs1"
      using True get_cell_nth [OF assms True] by (auto simp: d inb_def Let_def)
    moreover have "\<forall>e\<in>set ?fs1. e \<in> set fs \<or> e = (fx + dx, fy + dy, fx, fy)" by auto
    ultimately show ?thesis using Cons.IH [of ?fs1] True unfolding d
      by (fastforce simp del: push_neighbours.simps)
  qed
qed

lemma seed_frontiers_set:
  "\<forall>e\<in>set (seed_frontiers sz sx sy ds fs). e \<in> set fs \<or>
      (\<exists>dx dy. (dx, dy) \<in> set ds \<and> inb sz (sx + dx) (sy + dy)
         \<and> e = (sx + dx, sy + dy, sx, sy))"
proof (induction ds arbitrary: fs)
  case Nil
  then show ?case by simp
next
  case (Cons d ds)
  obtain dx dy where d: "d = (dx, dy)" by (cases d)
  show ?case
  proof (cases "inb sz (sx + dx) (sy + dy)")
    case False
    then have "seed_frontiers sz sx sy (d # ds) fs = seed_frontiers sz sx sy ds fs"
      by (auto simp: d inb_def Let_def)
    with Cons.IH [of fs] show ?thesis by fastforce
  next
    case True
    then have "seed_frontiers sz sx sy (d # ds) fs
               = seed_frontiers sz sx sy ds (fs @ [(sx + dx, sy + dy, sx, sy)])"
      by (auto simp: d inb_def Let_def)
    then show ?thesis using Cons.IH [of "fs @ [(sx + dx, sy + dy, sx, sy)]"] True unfolding d
      by (fastforce simp del: seed_frontiers.simps)
  qed
qed

lemma gen_inv_subset:
  assumes "gen_inv sz (m, fs)" and "set fs' \<subseteq> set fs"
  shows "gen_inv sz (m, fs')"
  using assms unfolding gen_inv_def fst_conv snd_conv by blast

lemma gen_step_inv:
  assumes inv: "gen_inv sz (m, fs)" and i: "i < length fs"
  shows "\<exists>m' fs'. gen_step sz i (m, fs) = Some (m', fs') \<and> gen_inv sz (m', fs')"
proof -
  obtain fx fy px py where f: "fs ! i = (fx, fy, px, py)" by (cases "fs ! i")
  let ?rest = "take i fs @ drop (Suc i) fs"
  have fin: "(fx, fy, px, py) \<in> set fs" using i f by (metis nth_mem)
  have wf: "wf_grid sz m" using inv by (simp add: gen_inv_def)
  from inv fin have p: "opn sz m px py" "is_room sz px py" "inb sz fx fy"
    and d: "(fx - px, fy - py) \<in> set directions"
    by (auto simp: gen_inv_def)
  have rest: "set ?rest \<subseteq> set fs"
    using set_take_subset [of i fs] set_drop_subset [of "Suc i" fs] by auto
  have gc: "get_cell m fy fx = Some (m ! nat fy ! nat fx)" by (rule get_cell_nth [OF wf p(3)])
  show ?thesis
  proof (cases "m ! nat fy ! nat fx = 1")
    case False
    then have "gen_step sz i (m, fs) = Some (m, ?rest)"
      by (simp add: gen_step_def f gc Let_def)
    moreover have "gen_inv sz (m, ?rest)" using inv rest by (rule gen_inv_subset)
    ultimately show ?thesis by blast
  next
    case True
    define mx where "mx = (fx + px) div 2"
    define my where "my = (fy + py) div 2"
    define m1 where "m1 = put m fy fx 0"
    define m2 where "m2 = put m1 my mx 0"
    have ip: "inb sz px py" using p(1) by (simp add: opn_def)
    have im: "inb sz mx my"
      unfolding mx_def my_def by (rule frontier_geometry(8) [OF d p(2) ip p(3)])
    have wf1: "wf_grid sz m1" unfolding m1_def by (rule wf_put [OF wf])
    have wf2: "wf_grid sz m2" unfolding m2_def by (rule wf_put [OF wf1])
    have s1: "set_cell m fy fx 0 = Some m1" unfolding m1_def by (rule set_cell_put [OF wf p(3)])
    have s2: "set_cell m1 my mx 0 = Some m2" unfolding m2_def by (rule set_cell_put [OF wf1 im])
    from push_neighbours_Some [OF wf2, of fx fy directions ?rest]
    obtain fs2 where pn: "push_neighbours m2 sz fx fy directions ?rest = Some fs2"
      and sub: "\<forall>e\<in>set fs2. e \<in> set ?rest \<or>
              (\<exists>dx dy. (dx, dy) \<in> set directions \<and> inb sz (fx + dx) (fy + dy)
                 \<and> e = (fx + dx, fy + dy, fx, fy))"
      by blast
    have step: "gen_step sz i (m, fs) = Some (m2, fs2)"
      using True by (simp add: gen_step_def f gc Let_def s1 s2 [unfolded mx_def my_def] pn)
    have o1: "\<And>x y. opn sz m1 x y \<longleftrightarrow> opn sz m x y \<or> (x = fx \<and> y = fy)"
      unfolding m1_def by (rule opn_put [OF wf p(3)])
    have o2': "\<And>x y. opn sz m2 x y \<longleftrightarrow> opn sz m1 x y \<or> (x = mx \<and> y = my)"
      unfolding m2_def by (rule opn_put [OF wf1 im])
    have o2: "\<And>x y. opn sz m2 x y \<longleftrightarrow>
               opn sz m x y \<or> (x = fx \<and> y = fy) \<or> (x = (fx + px) div 2 \<and> y = (fy + py) div 2)"
      by (simp add: o1 o2' mx_def my_def)
    have "gen_inv sz (m2, fs2)"
    proof (rule carve_inv [OF inv fin _ wf2 o2])
      show "get_cell m fy fx = Some 1" using gc True by simp
    next
      fix e assume "e \<in> set fs2"
      with sub rest show "e \<in> set fs \<or>
               (\<exists>dx dy. (dx, dy) \<in> set directions \<and> inb sz (fx + dx) (fy + dy)
                  \<and> e = (fx + dx, fy + dy, fx, fy))"
        by blast
    qed
    with step show ?thesis by blast
  qed
qed

lemma gen_loop_inv:
  "gen_inv sz st \<Longrightarrow> \<exists>m. gen_loop rnd sz k st = Some (m, []) \<and> gen_inv sz (m, [])"
proof (induction rnd sz k st rule: gen_loop.induct)
  case (1 rnd sz k st)
  show ?case
  proof (cases "snd st = []")
    case True
    then have "gen_loop rnd sz k st = Some (fst st, [])"
      by (subst gen_loop.simps) (simp add: prod_eq_iff)
    moreover have "gen_inv sz (fst st, [])" using "1.prems" True
      by (metis prod.collapse)
    ultimately show ?thesis by blast
  next
    case False
    let ?i = "rnd k mod length (snd st)"
    have "?i < length (snd st)" using False by simp
    with "1.prems" gen_step_inv [of sz "fst st" "snd st" ?i]
    obtain m' fs' where s: "gen_step sz ?i st = Some (m', fs')" and inv': "gen_inv sz (m', fs')"
      by auto
    from "1.IH" [OF False s inv']
    obtain m where "gen_loop rnd sz (Suc k) (m', fs') = Some (m, [])" and "gen_inv sz (m, [])"
      by blast
    moreover have "gen_loop rnd sz k st = gen_loop rnd sz (Suc k) (m', fs')"
      using False s by (subst gen_loop.simps) simp
    ultimately show ?thesis by auto
  qed
qed

lemma gen_inv_init:
  assumes "1 \<le> sz"
  shows "gen_inv sz (put (filled sz 1) (sz div 2) (sz div 2) 0,
                      seed_frontiers sz (sz div 2) (sz div 2) directions [])"
proof -
  let ?c = "sz div 2"
  let ?m = "put (filled sz 1) ?c ?c 0"
  have ic: "inb sz ?c ?c" using assms by (auto simp: inb_def)
  have wf: "wf_grid sz ?m" by (rule wf_put [OF wf_filled])
  have o: "\<And>x y. opn sz ?m x y \<longleftrightarrow> x = ?c \<and> y = ?c"
    using ic by (auto simp: opn_def get_cell_put [OF wf_filled ic] get_cell_filled
        split: if_splits)
  have rc: "is_room sz ?c ?c" by (simp add: is_room_def)
  have npc: "\<not> is_passage sz ?c ?c" by (simp add: is_passage_def)
  have r: "{(x, y). is_room sz x y \<and> opn sz ?m x y} = {(?c, ?c)}"
    using rc by (auto simp: o)
  have p: "{(x, y). is_passage sz x y \<and> opn sz ?m x y} = {}"
    using npc by (auto simp: o)
  have fr: "\<forall>fx fy px py. (fx, fy, px, py) \<in> set (seed_frontiers sz ?c ?c directions []) \<longrightarrow>
          opn sz ?m px py \<and> is_room sz px py \<and> inb sz fx fy
          \<and> (fx - px, fy - py) \<in> set directions"
    using seed_frontiers_set [of sz ?c ?c directions "[]"] rc by (fastforce simp: o)
  have l: "linked sz ?m ?c ?c" by (rule linked.centre) (simp add: o)
  show ?thesis
    unfolding gen_inv_def fst_conv snd_conv r p
    using wf fr l rc by (simp add: o leaf_grown.root)
qed

lemma generate_grown_inv:
  assumes "1 \<le> sz"
  shows "\<exists>m. generate_grown rnd sz = Some m \<and> gen_inv sz (m, [])"
proof -
  let ?c = "sz div 2"
  have ic: "inb sz ?c ?c" using assms by (auto simp: inb_def)
  have s: "set_cell (filled sz 1) ?c ?c 0 = Some (put (filled sz 1) ?c ?c 0)"
    by (rule set_cell_put [OF wf_filled ic])
  from gen_loop_inv [OF gen_inv_init [OF assms], of rnd 0]
  show ?thesis by (auto simp: generate_grown_def Let_def s)
qed

subsection \<open>The growth reaches every room\<close>

text \<open>Every room of the lattice, open or not.\<close>

definition all_rooms :: "int \<Rightarrow> (int \<times> int) list" where
  "all_rooms sz = filter (\<lambda>(x, y). is_room sz x y) (coords sz)"

text \<open>
  What makes the growth reach every room: a cell holds 0 or 1, and each in-bounds
  lattice neighbour of an open room is open or waits in the frontier list.
\<close>

definition gen_span :: "int \<Rightarrow> grid \<times> frontier list \<Rightarrow> bool" where
  "gen_span sz st =
     ((\<forall>x y. inb sz x y \<longrightarrow> get_cell (fst st) y x = Some 0 \<or> get_cell (fst st) y x = Some 1) \<and>
      (\<forall>x y dx dy. is_room sz x y \<and> opn sz (fst st) x y \<and> (dx, dy) \<in> set directions
          \<and> inb sz (x + dx) (y + dy) \<longrightarrow>
          opn sz (fst st) (x + dx) (y + dy) \<or> (x + dx, y + dy, x, y) \<in> set (snd st)))"

lemma push_neighbours_covers:
  assumes "wf_grid sz m" and "push_neighbours m sz fx fy ds fs = Some fs'"
  shows "set fs \<subseteq> set fs' \<and>
         (\<forall>dx dy. (dx, dy) \<in> set ds \<and> inb sz (fx + dx) (fy + dy)
             \<and> get_cell m (fy + dy) (fx + dx) = Some 1 \<longrightarrow>
             (fx + dx, fy + dy, fx, fy) \<in> set fs')"
  using assms(2)
proof (induction ds arbitrary: fs)
  case Nil
  then show ?case by simp
next
  case (Cons d ds)
  obtain dx dy where d: "d = (dx, dy)" by (cases d)
  show ?case
  proof (cases "inb sz (fx + dx) (fy + dy)")
    case False
    then have "push_neighbours m sz fx fy (d # ds) fs = push_neighbours m sz fx fy ds fs"
      by (auto simp: d inb_def Let_def)
    with Cons.prems have "push_neighbours m sz fx fy ds fs = Some fs'" by simp
    from Cons.IH [OF this] False show ?thesis unfolding d by auto
  next
    case True
    let ?fs1 = "if m ! nat (fy + dy) ! nat (fx + dx) = 1
                then fs @ [(fx + dx, fy + dy, fx, fy)] else fs"
    have g: "get_cell m (fy + dy) (fx + dx) = Some (m ! nat (fy + dy) ! nat (fx + dx))"
      by (rule get_cell_nth [OF assms(1) True])
    have "push_neighbours m sz fx fy (d # ds) fs = push_neighbours m sz fx fy ds ?fs1"
      using True g by (auto simp: d inb_def Let_def)
    with Cons.prems have "push_neighbours m sz fx fy ds ?fs1 = Some fs'" by simp
    from Cons.IH [OF this] have a: "set ?fs1 \<subseteq> set fs'"
      and b: "\<forall>dx dy. (dx, dy) \<in> set ds \<and> inb sz (fx + dx) (fy + dy)
             \<and> get_cell m (fy + dy) (fx + dx) = Some 1 \<longrightarrow>
             (fx + dx, fy + dy, fx, fy) \<in> set fs'"
      by blast+
    have "set fs \<subseteq> set fs'" using a by (auto split: if_splits)
    moreover have "get_cell m (fy + dy) (fx + dx) = Some 1 \<Longrightarrow> (fx + dx, fy + dy, fx, fy) \<in> set fs'"
      using a g by (auto split: if_splits)
    ultimately show ?thesis using b unfolding d by auto
  qed
qed

lemma seed_frontiers_covers:
  "set fs \<subseteq> set (seed_frontiers sz sx sy ds fs) \<and>
   (\<forall>dx dy. (dx, dy) \<in> set ds \<and> inb sz (sx + dx) (sy + dy) \<longrightarrow>
       (sx + dx, sy + dy, sx, sy) \<in> set (seed_frontiers sz sx sy ds fs))"
proof (induction ds arbitrary: fs)
  case Nil
  then show ?case by simp
next
  case (Cons d ds)
  obtain dx dy where d: "d = (dx, dy)" by (cases d)
  show ?case
  proof (cases "inb sz (sx + dx) (sy + dy)")
    case False
    then have "seed_frontiers sz sx sy (d # ds) fs = seed_frontiers sz sx sy ds fs"
      by (auto simp: d inb_def Let_def)
    with Cons.IH [of fs] False show ?thesis unfolding d by auto
  next
    case True
    then have e: "seed_frontiers sz sx sy (d # ds) fs
               = seed_frontiers sz sx sy ds (fs @ [(sx + dx, sy + dy, sx, sy)])"
      by (auto simp: d inb_def Let_def)
    from Cons.IH [of "fs @ [(sx + dx, sy + dy, sx, sy)]"] show ?thesis
      unfolding e unfolding d by auto
  qed
qed

lemma rooms_all_open:
  assumes "1 \<le> sz" and c: "opn sz m (sz div 2) (sz div 2)"
    and cl: "\<And>x y dx dy. is_room sz x y \<Longrightarrow> opn sz m x y \<Longrightarrow> (dx, dy) \<in> set directions
               \<Longrightarrow> inb sz (x + dx) (y + dy) \<Longrightarrow> opn sz m (x + dx) (y + dy)"
  shows "is_room sz x y \<Longrightarrow> inb sz x y \<Longrightarrow> opn sz m x y"
proof (induction "nat (\<bar>x - sz div 2\<bar> + \<bar>y - sz div 2\<bar>)" arbitrary: x y rule: less_induct)
  case less
  let ?c = "sz div 2"
  have cb: "0 \<le> ?c" "?c < sz" using assms(1) by auto
  from less.prems have ex: "even (x - ?c)" and ey: "even (y - ?c)"
    and bx: "0 \<le> x" "x < sz" and "by": "0 \<le> y" "y < sz"
    by (auto simp: is_room_def inb_def)
  consider (centre) "x = ?c" "y = ?c" | (right) "?c < x" | (left) "x < ?c"
    | (down) "x = ?c" "?c < y" | (up) "x = ?c" "y < ?c"
    by linarith
  then show ?case
  proof cases
    case centre
    then show ?thesis using c by simp
  next
    case right
    with ex have g: "?c \<le> x - 2" by presburger
    have r: "is_room sz (x - 2) y" using ex ey by (simp add: is_room_def)
    have i: "inb sz (x - 2) y" using g cb bx "by" by (simp add: inb_def)
    have "nat (\<bar>x - 2 - ?c\<bar> + \<bar>y - ?c\<bar>) < nat (\<bar>x - ?c\<bar> + \<bar>y - ?c\<bar>)" using g by linarith
    from less.hyps [OF this r i] have "opn sz m (x - 2) y" .
    from cl [OF r this, of 2 0] less.prems(2) show ?thesis by (simp add: directions_def)
  next
    case left
    with ex have g: "x + 2 \<le> ?c" by presburger
    have r: "is_room sz (x + 2) y" using ex ey by (simp add: is_room_def)
    have i: "inb sz (x + 2) y" using g cb bx "by" by (simp add: inb_def)
    have "nat (\<bar>x + 2 - ?c\<bar> + \<bar>y - ?c\<bar>) < nat (\<bar>x - ?c\<bar> + \<bar>y - ?c\<bar>)" using g by linarith
    from less.hyps [OF this r i] have "opn sz m (x + 2) y" .
    from cl [OF r this, of "-2" 0] less.prems(2) show ?thesis by (simp add: directions_def)
  next
    case down
    with ey have g: "?c \<le> y - 2" by presburger
    have r: "is_room sz x (y - 2)" using ex ey by (simp add: is_room_def)
    have i: "inb sz x (y - 2)" using g cb bx "by" by (simp add: inb_def)
    have "nat (\<bar>x - ?c\<bar> + \<bar>y - 2 - ?c\<bar>) < nat (\<bar>x - ?c\<bar> + \<bar>y - ?c\<bar>)" using g by linarith
    from less.hyps [OF this r i] have "opn sz m x (y - 2)" .
    from cl [OF r this, of 0 2] less.prems(2) show ?thesis by (simp add: directions_def)
  next
    case up
    with ey have g: "y + 2 \<le> ?c" by presburger
    have r: "is_room sz x (y + 2)" using ex ey by (simp add: is_room_def)
    have i: "inb sz x (y + 2)" using g cb bx "by" by (simp add: inb_def)
    have "nat (\<bar>x - ?c\<bar> + \<bar>y + 2 - ?c\<bar>) < nat (\<bar>x - ?c\<bar> + \<bar>y - ?c\<bar>)" using g by linarith
    from less.hyps [OF this r i] have "opn sz m x (y + 2)" .
    from cl [OF r this, of 0 "-2"] less.prems(2) show ?thesis by (simp add: directions_def)
  qed
qed

lemma set_pop:
  assumes "i < length fs" and "e \<in> set fs"
  shows "e = fs ! i \<or> e \<in> set (take i fs @ drop (Suc i) fs)"
proof -
  have "e \<in> set (take i fs @ fs ! i # drop (Suc i) fs)"
    using assms(2) by (subst id_take_nth_drop [OF assms(1), symmetric])
  then show ?thesis by auto
qed

lemma gen_step_span:
  assumes inv: "gen_inv sz (m, fs)" and sp: "gen_span sz (m, fs)" and i: "i < length fs"
    and st: "gen_step sz i (m, fs) = Some (m', fs')"
  shows "gen_span sz (m', fs')"
proof -
  obtain fx fy px py where f: "fs ! i = (fx, fy, px, py)" by (cases "fs ! i")
  let ?rest = "take i fs @ drop (Suc i) fs"
  have fin: "(fx, fy, px, py) \<in> set fs" using i f by (metis nth_mem)
  have wf: "wf_grid sz m" using inv by (simp add: gen_inv_def)
  from inv fin have p: "opn sz m px py" "is_room sz px py" "inb sz fx fy"
    and d: "(fx - px, fy - py) \<in> set directions"
    by (auto simp: gen_inv_def)
  have gc: "get_cell m fy fx = Some (m ! nat fy ! nat fx)" by (rule get_cell_nth [OF wf p(3)])
  from sp have c01: "\<And>x y. inb sz x y \<Longrightarrow> get_cell m y x = Some 0 \<or> get_cell m y x = Some 1"
    and cl: "\<And>x y dx dy. is_room sz x y \<Longrightarrow> opn sz m x y \<Longrightarrow> (dx, dy) \<in> set directions
          \<Longrightarrow> inb sz (x + dx) (y + dy)
          \<Longrightarrow> opn sz m (x + dx) (y + dy) \<or> (x + dx, y + dy, x, y) \<in> set fs"
    by (auto simp: gen_span_def)
  have pop: "\<And>e. e \<in> set fs \<Longrightarrow> e = (fx, fy, px, py) \<or> e \<in> set ?rest"
    using set_pop [OF i] f by auto
  show ?thesis
  proof (cases "m ! nat fy ! nat fx = 1")
    case False
    then have e: "m' = m" "fs' = ?rest"
      using st by (simp_all add: gen_step_def f gc Let_def)
    have of: "opn sz m fx fy" using c01 [OF p(3)] gc False p(3) by (auto simp: opn_def)
    have "opn sz m (x + dx) (y + dy) \<or> (x + dx, y + dy, x, y) \<in> set ?rest"
      if "is_room sz x y" "opn sz m x y" "(dx, dy) \<in> set directions" "inb sz (x + dx) (y + dy)"
      for x y dx dy
      using cl [OF that] pop [of "(x + dx, y + dy, x, y)"] of by auto
    then show ?thesis using c01 unfolding gen_span_def e fst_conv snd_conv by blast
  next
    case True
    define mx where "mx = (fx + px) div 2"
    define my where "my = (fy + py) div 2"
    define m1 where "m1 = put m fy fx 0"
    define m2 where "m2 = put m1 my mx 0"
    have ip: "inb sz px py" using p(1) by (simp add: opn_def)
    have im: "inb sz mx my"
      unfolding mx_def my_def by (rule frontier_geometry(8) [OF d p(2) ip p(3)])
    have nr: "\<not> is_room sz mx my"
      unfolding mx_def my_def by (rule frontier_geometry(3) [OF d p(2)])
    have wf1: "wf_grid sz m1" unfolding m1_def by (rule wf_put [OF wf])
    have wf2: "wf_grid sz m2" unfolding m2_def by (rule wf_put [OF wf1])
    have s1: "set_cell m fy fx 0 = Some m1" unfolding m1_def by (rule set_cell_put [OF wf p(3)])
    have s2: "set_cell m1 my mx 0 = Some m2" unfolding m2_def by (rule set_cell_put [OF wf1 im])
    from st True have m': "m' = m2"
      and pn: "push_neighbours m2 sz fx fy directions ?rest = Some fs'"
      by (auto simp: gen_step_def f gc Let_def s1 s2 [unfolded mx_def my_def] split: option.splits)
    have o1: "\<And>x y. opn sz m1 x y \<longleftrightarrow> opn sz m x y \<or> (x = fx \<and> y = fy)"
      unfolding m1_def by (rule opn_put [OF wf p(3)])
    have o2: "\<And>x y. opn sz m2 x y \<longleftrightarrow> opn sz m x y \<or> (x = fx \<and> y = fy) \<or> (x = mx \<and> y = my)"
      unfolding m2_def by (simp add: opn_put [OF wf1 im] o1)
    have c2: "get_cell m2 y x = Some 0 \<or> get_cell m2 y x = Some 1" if "inb sz x y" for x y
      using c01 [OF that] unfolding m2_def m1_def
      by (simp add: get_cell_put [OF wf1 [unfolded m1_def] im that] get_cell_put [OF wf p(3) that])
    note cov = push_neighbours_covers [OF wf2 pn]
    have "opn sz m2 (x + dx) (y + dy) \<or> (x + dx, y + dy, x, y) \<in> set fs'"
      if r: "is_room sz x y" and o: "opn sz m2 x y" and dd: "(dx, dy) \<in> set directions"
        and ib: "inb sz (x + dx) (y + dy)"
      for x y dx dy
    proof -
      from o r nr consider "opn sz m x y" | "x = fx" "y = fy" by (auto simp: o2)
      then show ?thesis
      proof cases
        case 1
        from cl [OF r 1 dd ib] show ?thesis
        proof
          assume "opn sz m (x + dx) (y + dy)"
          then show ?thesis by (simp add: o2)
        next
          assume "(x + dx, y + dy, x, y) \<in> set fs"
          from pop [OF this] show ?thesis
          proof
            assume "(x + dx, y + dy, x, y) = (fx, fy, px, py)"
            then show ?thesis by (simp add: o2)
          next
            assume "(x + dx, y + dy, x, y) \<in> set ?rest"
            with cov show ?thesis by blast
          qed
        qed
      next
        case 2
        from c2 [OF ib] show ?thesis
        proof
          assume "get_cell m2 (y + dy) (x + dx) = Some 0"
          with ib show ?thesis by (simp add: opn_def)
        next
          assume "get_cell m2 (y + dy) (x + dx) = Some 1"
          with cov dd ib 2 show ?thesis by blast
        qed
      qed
    qed
    then show ?thesis using c2 unfolding gen_span_def m' fst_conv snd_conv by blast
  qed
qed

lemma gen_loop_span:
  "gen_inv sz st \<Longrightarrow> gen_span sz st \<Longrightarrow> gen_loop rnd sz k st = Some st' \<Longrightarrow> gen_span sz st'"
proof (induction rnd sz k st rule: gen_loop.induct)
  case (1 rnd sz k st)
  show ?case
  proof (cases "snd st = []")
    case True
    then have "gen_loop rnd sz k st = Some st" by (subst gen_loop.simps) simp
    with "1.prems" show ?thesis by simp
  next
    case False
    let ?i = "rnd k mod length (snd st)"
    have i: "?i < length (snd st)" using False by simp
    with "1.prems"(1) gen_step_inv [of sz "fst st" "snd st" ?i]
    obtain m' fs' where s: "gen_step sz ?i st = Some (m', fs')" and inv': "gen_inv sz (m', fs')"
      by auto
    have sp': "gen_span sz (m', fs')"
      using "1.prems"(1,2) i s gen_step_span [of sz "fst st" "snd st" ?i m' fs'] by simp
    have "gen_loop rnd sz k st = gen_loop rnd sz (Suc k) (m', fs')"
      using False s by (subst gen_loop.simps) simp
    with "1.prems"(3) have "gen_loop rnd sz (Suc k) (m', fs') = Some st'" by simp
    from "1.IH" [OF False s inv' sp' this] show ?thesis .
  qed
qed

lemma gen_span_init:
  assumes "1 \<le> sz"
  shows "gen_span sz (put (filled sz 1) (sz div 2) (sz div 2) 0,
                       seed_frontiers sz (sz div 2) (sz div 2) directions [])"
proof -
  let ?c = "sz div 2"
  let ?m = "put (filled sz 1) ?c ?c 0"
  have ic: "inb sz ?c ?c" using assms by (auto simp: inb_def)
  have o: "\<And>x y. opn sz ?m x y \<longleftrightarrow> x = ?c \<and> y = ?c"
    using ic by (auto simp: opn_def get_cell_put [OF wf_filled ic] get_cell_filled
        split: if_splits)
  have "get_cell ?m y x = Some 0 \<or> get_cell ?m y x = Some 1" if "inb sz x y" for x y
    using that by (simp add: get_cell_put [OF wf_filled ic that] get_cell_filled)
  then show ?thesis
    unfolding gen_span_def fst_conv snd_conv
    using seed_frontiers_covers [of "[]" sz ?c ?c directions] by (auto simp: o)
qed

lemma leaf_grown_centre: "leaf_grown sz V E \<Longrightarrow> (sz div 2, sz div 2) \<in> V"
  by (induction rule: leaf_grown.induct) auto

lemma generate_grown_spans:
  assumes "1 \<le> sz" and "generate_grown rnd sz = Some m"
  shows "open_rooms sz m = all_rooms sz"
proof -
  let ?c = "sz div 2"
  let ?st = "(put (filled sz 1) ?c ?c 0, seed_frontiers sz ?c ?c directions [])"
  have ic: "inb sz ?c ?c" using assms(1) by (auto simp: inb_def)
  have s: "set_cell (filled sz 1) ?c ?c 0 = Some (put (filled sz 1) ?c ?c 0)"
    by (rule set_cell_put [OF wf_filled ic])
  from gen_loop_inv [OF gen_inv_init [OF assms(1)], of rnd 0]
  obtain m' where l: "gen_loop rnd sz 0 ?st = Some (m', [])" and inv: "gen_inv sz (m', [])"
    by blast
  with assms(2) have m: "m' = m" by (simp add: generate_grown_def Let_def s)
  have sp: "gen_span sz (m, [])"
    using gen_loop_span [OF gen_inv_init [OF assms(1)] gen_span_init [OF assms(1)] l] m by simp
  have "leaf_grown sz {(x, y). is_room sz x y \<and> opn sz m x y}
          {(x, y). is_passage sz x y \<and> opn sz m x y}"
    using inv m by (simp add: gen_inv_def)
  from leaf_grown_centre [OF this] have c: "opn sz m ?c ?c" by simp
  have cl: "\<And>x y dx dy. is_room sz x y \<Longrightarrow> opn sz m x y \<Longrightarrow> (dx, dy) \<in> set directions
               \<Longrightarrow> inb sz (x + dx) (y + dy) \<Longrightarrow> opn sz m (x + dx) (y + dy)"
    using sp by (simp add: gen_span_def)
  have "is_room sz x y \<Longrightarrow> inb sz x y \<Longrightarrow> opn sz m x y" for x y
    by (rule rooms_all_open [OF assms(1) c cl])
  then show ?thesis
    unfolding open_rooms_def all_rooms_def
    by (intro filter_cong) (auto simp: set_coords)
qed

subsection \<open>The generated maze\<close>

lemma generate_try_eq:
  assumes "3 \<le> sz" and "generate_grown rnd sz = Some m" and "wf_grid sz m"
  shows "generate_try rnd log_ok sz
         = (if log_ok then Some (put (put m 1 1 0) (sz - 2) (sz - 2) 0) else None)"
proof -
  have a: "inb sz 1 1" "inb sz (sz - 2) (sz - 2)" using assms(1) by (auto simp: inb_def)
  have "set_cell m 1 1 0 = Some (put m 1 1 0)" by (rule set_cell_put [OF assms(3) a(1)])
  moreover have "set_cell (put m 1 1 0) (sz - 2) (sz - 2) 0
                 = Some (put (put m 1 1 0) (sz - 2) (sz - 2) 0)"
    by (rule set_cell_put [OF wf_put [OF assms(3)] a(2)])
  ultimately show ?thesis by (simp add: generate_try_def assms(2))
qed

text \<open>Every grid that \<open>run_game\<close> plays on is square, of the configured size.\<close>

lemma generate_maze_wf:
  assumes "3 \<le> sz"
  shows "wf_grid sz (generate_maze rnd log_ok sz)"
proof -
  from generate_grown_inv [of sz rnd] assms
  obtain m where g: "generate_grown rnd sz = Some m" and wf: "wf_grid sz m"
    by (auto simp: gen_inv_def)
  show ?thesis
    by (simp add: generate_maze_def generate_try_eq [OF assms g wf] wf_put wf wf_simple_maze)
qed

text \<open>
  Claim C2. For every odd size \<open>N \<ge> 5\<close> the grid returned by \<open>generate_maze\<close> has the
  cells (1,1) and (N-2,N-2) open, on the normal path (the \<open>try\<close> block returns a grid,
  \<open>log_ok = True\<close>) and on the fallback path (the handler's bordered room, reached
  when the block raises, \<open>log_ok = False\<close>).
\<close>

theorem generate_maze_entrance_exit_open:
  assumes "odd sz" and "5 \<le> sz"
  shows "(\<exists>m. generate_try rnd True sz = Some m) \<and> generate_try rnd False sz = None
         \<and> get_cell (generate_maze rnd log_ok sz) 1 1 = Some 0
         \<and> get_cell (generate_maze rnd log_ok sz) (sz - 2) (sz - 2) = Some 0"
proof -
  from generate_grown_inv [of sz rnd] assms(2)
  obtain m where g: "generate_grown rnd sz = Some m" and wf: "wf_grid sz m"
    by (auto simp: gen_inv_def)
  have sz: "3 \<le> sz" using assms(2) by simp
  note t = generate_try_eq [OF sz g wf]
  have a: "inb sz 1 1" "inb sz (sz - 2) (sz - 2)" using assms(2) by (auto simp: inb_def)
  let ?m = "put (put m 1 1 0) (sz - 2) (sz - 2) 0"
  have c1: "get_cell ?m 1 1 = Some 0"
    by (simp add: get_cell_put [OF wf_put [OF wf] a(2) a(1)] get_cell_put [OF wf a(1) a(1)])
  have c2: "get_cell ?m (sz - 2) (sz - 2) = Some 0"
    by (simp add: get_cell_put [OF wf_put [OF wf] a(2) a(2)])
  have s1: "get_cell (simple_maze sz) 1 1 = Some 0"
    using assms(2) by (intro simple_maze_interior) auto
  have s2: "get_cell (simple_maze sz) (sz - 2) (sz - 2) = Some 0"
    using assms(2) by (intro simple_maze_interior) auto
  show ?thesis
    using c1 c2 s1 s2 by (cases log_ok) (simp_all add: generate_maze_def t)
qed

theorem generate_maze_entrance_exit_open_witness:
  "odd (5::int) \<and> (5::int) \<le> 5
   \<and> get_cell (generate_maze (\<lambda>k. 0) True 5) 1 1 = Some 0
   \<and> get_cell (generate_maze (\<lambda>k. 0) True 5) 3 3 = Some 0
   \<and> get_cell (generate_maze (\<lambda>k. 0) False 5) 1 1 = Some 0
   \<and> get_cell (generate_maze (\<lambda>k. 0) False 5) 3 3 = Some 0"
  using generate_maze_entrance_exit_open [of 5 "\<lambda>k. 0" True]
    generate_maze_entrance_exit_open [of 5 "\<lambda>k. 0" False]
  by simp

text \<open>
  Claim C1. For every odd size \<open>N \<ge> 5\<close> and every outcome of the random choices, the
  successful path returns the grown grid \<open>m\<close> with only the entrance and exit carved on
  top of it, and \<open>m\<close>, the grid before that forced carve, is a tree on the rooms
  reachable from the centre: the number of open rooms minus 1 is the number of open
  passages; the open rooms and passages are grown from the centre room by attaching one
  new room through one new passage at a time, so there is no cycle; every open room
  is linked to the centre; every open passage joins two open rooms; no pillar is open;
  and the rooms reached from the centre are all the rooms of the lattice.
\<close>

theorem generate_maze_tree:
  assumes "odd sz" and "5 \<le> sz"
  shows "\<exists>m. generate_grown rnd sz = Some m
          \<and> generate_maze rnd True sz = put (put m 1 1 0) (sz - 2) (sz - 2) 0
          \<and> length (open_rooms sz m) - 1 = length (open_passages sz m)
          \<and> 0 < length (open_rooms sz m)
          \<and> leaf_grown sz (set (open_rooms sz m)) (set (open_passages sz m))
          \<and> list_all (\<lambda>(x, y). linked sz m x y) (open_rooms sz m)
          \<and> list_all (joins_open_rooms sz m) (open_passages sz m)
          \<and> open_pillars sz m = []
          \<and> open_rooms sz m = all_rooms sz"
proof -
  from generate_grown_inv [of sz rnd] assms(2)
  obtain m where g: "generate_grown rnd sz = Some m" and inv: "gen_inv sz (m, [])"
    by auto
  have wf: "wf_grid sz m" using inv by (simp add: gen_inv_def)
  have sz: "3 \<le> sz" using assms(2) by simp
  have t: "generate_maze rnd True sz = put (put m 1 1 0) (sz - 2) (sz - 2) 0"
    by (simp add: generate_maze_def generate_try_eq [OF sz g wf])
  have sr: "set (open_rooms sz m) = {(x, y). is_room sz x y \<and> opn sz m x y}"
    by (auto simp: open_rooms_def set_coords opn_def)
  have sp: "set (open_passages sz m) = {(x, y). is_passage sz x y \<and> opn sz m x y}"
    by (auto simp: open_passages_def set_coords opn_def)
  have c: "length (open_rooms sz m) = length (open_passages sz m) + 1"
    using inv by (simp add: length_open_rooms length_open_passages gen_inv_def)
  have lg: "leaf_grown sz (set (open_rooms sz m)) (set (open_passages sz m))"
    unfolding sr sp using inv by (simp add: gen_inv_def)
  have ln: "list_all (\<lambda>(x, y). linked sz m x y) (open_rooms sz m)"
    using inv by (auto simp: list_all_iff sr gen_inv_def)
  have cls: "\<And>x y. opn sz m x y \<Longrightarrow>
          is_room sz x y \<or> (is_passage sz x y \<and> joins_open_rooms sz m (x, y))"
    using inv by (simp add: gen_inv_def)
  have np: "\<And>x y. is_passage sz x y \<Longrightarrow> \<not> is_room sz x y"
    by (auto simp: is_passage_def is_room_def)
  have jn: "list_all (joins_open_rooms sz m) (open_passages sz m)"
    using cls np by (auto simp: list_all_iff sp)
  have pl: "open_pillars sz m = []"
    using cls by (auto simp: open_pillars_def filter_empty_conv)
  have pos: "0 < length (open_rooms sz m)" using c by simp
  have c': "length (open_rooms sz m) - 1 = length (open_passages sz m)" using c by simp
  have al: "open_rooms sz m = all_rooms sz"
    using assms(2) g by (intro generate_grown_spans [of sz rnd]) simp_all
  show ?thesis using g t c' pos lg ln jn pl al by blast
qed

theorem generate_maze_tree_witness:
  "odd (5::int) \<and> (5::int) \<le> 5 \<and>
   (\<exists>m. generate_grown (\<lambda>k. 0) 5 = Some m
      \<and> generate_maze (\<lambda>k. 0) True 5 = put (put m 1 1 0) 3 3 0
      \<and> length (open_rooms 5 m) - 1 = length (open_passages 5 m)
      \<and> 0 < length (open_rooms 5 m)
      \<and> leaf_grown 5 (set (open_rooms 5 m)) (set (open_passages 5 m))
      \<and> list_all (\<lambda>(x, y). linked 5 m x y) (open_rooms 5 m)
      \<and> list_all (joins_open_rooms 5 m) (open_passages 5 m)
      \<and> open_pillars 5 m = []
      \<and> open_rooms 5 m = all_rooms 5)"
  using generate_maze_tree [of 5 "\<lambda>k. 0"] by simp

section \<open>The game session of run_game\<close>

text \<open>
  Python floats are modelled as real numbers: positions, angles, distances and times
  are \<open>real\<close>, and \<open>math.cos\<close>, \<open>math.sin\<close> and \<open>math.sqrt\<close> are the real functions.
  \<open>int(x)\<close> on a float truncates toward zero.
\<close>

definition py_int :: "real \<Rightarrow> int" where
  "py_int x = (if 0 \<le> x then \<lfloor>x\<rfloor> else \<lceil>x\<rceil>)"

text \<open>\<open>x % m\<close> on floats, for a positive \<open>m\<close>: the result has the sign of \<open>m\<close>.\<close>

definition py_fmod :: "real \<Rightarrow> real \<Rightarrow> real" where
  "py_fmod x m = x - m * of_int \<lfloor>x / m\<rfloor>"

definition WIDTH :: int where "WIDTH = 800"
definition HEIGHT :: int where "HEIGHT = 600"
definition FOV :: real where "FOV = pi / 3"
definition HALF_FOV :: real where "HALF_FOV = FOV / 2"
definition MAX_DEPTH :: real where "MAX_DEPTH = 20"
definition ROTATION_SPEED :: real where "ROTATION_SPEED = 4 / 100"
definition RAY_STEP_SIZE :: real where "RAY_STEP_SIZE = 2 / 100"

record config =
  map_size :: int
  move_speed :: real
  show_minimap :: bool

definition EASY_CONFIG :: config where
  "EASY_CONFIG = \<lparr>map_size = 15, move_speed = 1 / 10, show_minimap = True\<rparr>"




text \<open>The keys that \<open>handle_movement\<close> reads from \<open>pygame.key.get_pressed()\<close>.\<close>

record keys =
  K_w :: bool
  K_UP :: bool
  K_s :: bool
  K_DOWN :: bool
  K_q :: bool
  K_e :: bool
  K_a :: bool
  K_LEFT :: bool
  K_d :: bool
  K_RIGHT :: bool

text \<open>The variables of \<open>run_game\<close> that its closures and its loop change.\<close>

record session =
  player_x :: real
  player_y :: real
  player_angle :: real
  running :: bool
  game_completed :: bool
  completion_time :: real

subsection \<open>handle_movement\<close>

text \<open>Lines 315 to 339: the movement vector, from the heading before this tick's turn.\<close>

definition move_vector :: "real \<Rightarrow> real \<Rightarrow> keys \<Rightarrow> real \<times> real" where
  "move_vector a sp ks =
     (let mv = (0, 0);
          mv = (if K_w ks \<or> K_UP ks
                then (fst mv + cos a * sp, snd mv + sin a * sp) else mv);
          mv = (if K_s ks \<or> K_DOWN ks
                then (fst mv - cos a * sp, snd mv - sin a * sp) else mv);
          mv = (if K_q ks
                then (fst mv + cos (a - pi / 2) * sp, snd mv + sin (a - pi / 2) * sp) else mv);
          mv = (if K_e ks
                then (fst mv + cos (a + pi / 2) * sp, snd mv + sin (a + pi / 2) * sp) else mv)
      in mv)"

text \<open>Lines 341 to 345: the turn. Nothing else writes \<open>player_angle\<close>.\<close>

definition turn :: "real \<Rightarrow> keys \<Rightarrow> real" where
  "turn a ks =
     (let a = (if K_a ks \<or> K_LEFT ks then a - ROTATION_SPEED else a);
          a = (if K_d ks \<or> K_RIGHT ks then a + ROTATION_SPEED else a)
      in a)"

text \<open>
  The test of lines 351 to 355 (and 360 to 370, with one coordinate the current one):
  the truncated indices are within the grid and the cell is 0. The read is reached
  only behind the bounds tests; \<open>None\<close> is an IndexError of the read.
\<close>

definition can_move :: "config \<Rightarrow> grid \<Rightarrow> real \<Rightarrow> real \<Rightarrow> bool option" where
  "can_move cfg maze x y =
     (if 0 \<le> py_int x \<and> py_int x < map_size cfg \<and> 0 \<le> py_int y \<and> py_int y < map_size cfg
      then map_option (\<lambda>c. c = 0) (get_cell maze (py_int y) (py_int x))
      else Some False)"

text \<open>Lines 348 to 376; \<open>None\<close> is an exception, raised before any coordinate is written.\<close>

definition resolve_move :: "config \<Rightarrow> grid \<Rightarrow> session \<Rightarrow> real \<Rightarrow> real \<Rightarrow> session option" where
  "resolve_move cfg maze s move_x move_y =
     (let new_x = player_x s + move_x; new_y = player_y s + move_y
      in case can_move cfg maze new_x new_y of
           None \<Rightarrow> None
         | Some can_move_both \<Rightarrow>
             if can_move_both then Some (s\<lparr>player_x := new_x, player_y := new_y\<rparr>)
             else
               (case can_move cfg maze new_x (player_y s) of
                  None \<Rightarrow> None
                | Some can_move_x \<Rightarrow>
                    (case can_move cfg maze (player_x s) new_y of
                       None \<Rightarrow> None
                     | Some can_move_y \<Rightarrow>
                         Some (let s = (if can_move_x then s\<lparr>player_x := new_x\<rparr> else s);
                                   s = (if can_move_y then s\<lparr>player_y := new_y\<rparr> else s)
                               in s))))"

text \<open>
  \<open>handle_movement\<close> (lines 308 to 378). \<open>pressed\<close> is \<open>None\<close> when
  \<open>pygame.key.get_pressed()\<close> raises; every exception ends the function with the
  variables as they are at that point.
\<close>

definition handle_movement :: "config \<Rightarrow> grid \<Rightarrow> keys option \<Rightarrow> session \<Rightarrow> session" where
  "handle_movement cfg maze pressed s =
     (case pressed of
        None \<Rightarrow> s
      | Some ks \<Rightarrow>
          (let mv = move_vector (player_angle s) (move_speed cfg) ks;
               s1 = s\<lparr>player_angle := turn (player_angle s) ks\<rparr>
           in if fst mv \<noteq> 0 \<or> snd mv \<noteq> 0
              then (case resolve_move cfg maze s1 (fst mv) (snd mv) of
                      None \<Rightarrow> s1
                    | Some s2 \<Rightarrow> s2)
              else s1))"

subsection \<open>draw_3d_view\<close>

text \<open>Lines 188 to 191: the angle of the ray of a column.\<close>

definition ray_angle :: "real \<Rightarrow> int \<Rightarrow> real" where
  "ray_angle a column =
     py_fmod (a - HALF_FOV + (of_int column / of_int WIDTH) * FOV) (2 * pi)"

text \<open>Line 204.\<close>

definition color_intensity :: "real \<Rightarrow> real" where
  "color_intensity distance = min 255 (max 50 (255 - distance * 20))"

subsection \<open>The main loop\<close>

datatype key = K_ESCAPE | K_OTHER

datatype event = QUIT | KEYDOWN key | OTHER_EVENT

text \<open>
  What one pass of \<open>while running\<close> takes from its collaborators: the event queue, the
  pressed keys, the clock, and whether one of their calls raises. \<open>events = None\<close> is an
  exception of \<open>pygame.event.get()\<close> at line 387, \<open>win_fault\<close> an exception of a call of
  lines 402 to 451 (logger, fonts, display), \<open>render_fault\<close> an exception of a call of
  lines 465 to 486 that the closures do not catch themselves. \<open>wait_events n\<close> is the
  \<open>n\<close>-th result of \<open>pygame.event.get()\<close> in the modal wait of lines 455 to 462.
\<close>

record tick_input =
  events :: "event list option"
  pressed :: "keys option"
  now :: real
  win_fault :: bool
  wait_events :: "nat \<Rightarrow> event list"
  render_fault :: bool

text \<open>Lines 387 to 392: the value of \<open>running\<close> after the events are drained.\<close>

fun drain_events :: "event list \<Rightarrow> bool \<Rightarrow> bool" where
  "drain_events [] r = r"
| "drain_events (QUIT # es) r = drain_events es False"
| "drain_events (KEYDOWN k # es) r = drain_events es (if k = K_ESCAPE then False else r)"
| "drain_events (OTHER_EVENT # es) r = drain_events es r"

text \<open>
  Lines 455 to 462: the modal wait ends with the first batch of events that holds a
  quit or a key press; it never ends when there is none.
\<close>

fun ends_wait :: "event \<Rightarrow> bool" where
  "ends_wait QUIT = True"
| "ends_wait (KEYDOWN k) = True"
| "ends_wait OTHER_EVENT = False"

partial_function (option) wait_loop :: "(nat \<Rightarrow> event list) \<Rightarrow> nat \<Rightarrow> unit option" where
  "wait_loop ev n = (if list_ex ends_wait (ev n) then Some () else wait_loop ev (Suc n))"

text \<open>Line 398.\<close>

definition at_exit :: "config \<Rightarrow> session \<Rightarrow> bool" where
  "at_exit cfg s =
     (py_int (player_x s) = map_size cfg - 2 \<and> py_int (player_y s) = map_size cfg - 2)"

text \<open>
  How a pass of the loop ends: the frame was presented, the modal wait of the win
  screen returned, an exception reached the handler of line 488, or the modal wait
  never returns.
\<close>

datatype tick_end = Presented | Waited | Faulted | Blocked

text \<open>One pass of \<open>while running\<close> (lines 386 to 490).\<close>

definition tick :: "config \<Rightarrow> grid \<Rightarrow> real \<Rightarrow> tick_input \<Rightarrow> session \<Rightarrow> session \<times> tick_end" where
  "tick cfg maze start_time inp s =
     (case events inp of
        None \<Rightarrow> (s\<lparr>running := False\<rparr>, Faulted)
      | Some evs \<Rightarrow>
          (let s = s\<lparr>running := drain_events evs (running s)\<rparr>
           in if \<not> game_completed s then
                (let s = handle_movement cfg maze (pressed inp) s
                 in if at_exit cfg s then
                      (let s = s\<lparr>completion_time := now inp - start_time,
                                 game_completed := True\<rparr>
                       in if win_fault inp then (s\<lparr>running := False\<rparr>, Faulted)
                          else (case wait_loop (wait_events inp) 0 of
                                  None \<Rightarrow> (s, Blocked)
                                | Some u \<Rightarrow> (s\<lparr>running := False\<rparr>, Waited)))
                    else if render_fault inp then (s\<lparr>running := False\<rparr>, Faulted)
                    else (s, Presented))
              else (s, Presented)))"


text \<open>Lines 138 to 143 and 381 to 383.\<close>

definition start_session :: session where
  "start_session =
     \<lparr>player_x = 15 / 10, player_y = 15 / 10, player_angle = 0,
      running = True, game_completed = False, completion_time = 0\<rparr>"


section \<open>Movement, heading and shading\<close>

text \<open>
  The cell of a point, by the truncated indices of the source, is within the grid and
  open.
\<close>

definition walkable :: "config \<Rightarrow> grid \<Rightarrow> real \<Rightarrow> real \<Rightarrow> bool" where
  "walkable cfg maze x y =
     (inb (map_size cfg) (py_int x) (py_int y) \<and> get_cell maze (py_int y) (py_int x) = Some 0)"

lemma can_move_walkable:
  assumes "wf_grid (map_size cfg) maze"
  shows "can_move cfg maze x y = Some (walkable cfg maze x y)"
proof (cases "inb (map_size cfg) (py_int x) (py_int y)")
  case True
  from get_cell_nth [OF assms True] True show ?thesis
    by (auto simp: can_move_def walkable_def inb_def)
next
  case False
  then show ?thesis by (auto simp: can_move_def walkable_def inb_def)
qed

text \<open>
  Claim C5. For a pose, a square grid of the configured size and a nonzero movement
  vector \<open>(dx, dy)\<close>: when the cell of \<open>(x + dx, y + dy)\<close> is open and in bounds, both
  coordinates are updated; otherwise \<open>x\<close> advances exactly when the cell of
  \<open>(x + dx, y)\<close> is open and in bounds and \<open>y\<close> advances exactly when the cell of
  \<open>(x, y + dy)\<close> is open and in bounds, each tested against the other current
  coordinate; a coordinate whose target index \<open>int(x + dx)\<close> (or \<open>int(y + dy)\<close>) is
  outside the grid is never accepted. The index of a coordinate is \<open>int()\<close> of it, which
  truncates toward zero. The grids of \<open>generate_maze\<close> are square (\<open>generate_maze_wf\<close>).
\<close>

theorem handle_movement_slides:
  assumes "wf_grid (map_size cfg) maze"
    and "move_vector (player_angle s) (move_speed cfg) ks = (dx, dy)"
    and "dx \<noteq> 0 \<or> dy \<noteq> 0"
  shows "(walkable cfg maze (player_x s + dx) (player_y s + dy) \<longrightarrow>
            player_x (handle_movement cfg maze (Some ks) s) = player_x s + dx
          \<and> player_y (handle_movement cfg maze (Some ks) s) = player_y s + dy)
       \<and> (\<not> walkable cfg maze (player_x s + dx) (player_y s + dy) \<longrightarrow>
            player_x (handle_movement cfg maze (Some ks) s)
              = (if walkable cfg maze (player_x s + dx) (player_y s)
                 then player_x s + dx else player_x s)
          \<and> player_y (handle_movement cfg maze (Some ks) s)
              = (if walkable cfg maze (player_x s) (player_y s + dy)
                 then player_y s + dy else player_y s))
       \<and> (\<not> (0 \<le> py_int (player_x s + dx) \<and> py_int (player_x s + dx) < map_size cfg) \<longrightarrow>
            player_x (handle_movement cfg maze (Some ks) s) = player_x s)
       \<and> (\<not> (0 \<le> py_int (player_y s + dy) \<and> py_int (player_y s + dy) < map_size cfg) \<longrightarrow>
            player_y (handle_movement cfg maze (Some ks) s) = player_y s)"
  using assms(2,3)
  by (auto simp: handle_movement_def resolve_move_def Let_def can_move_walkable [OF assms(1)]
      walkable_def inb_def)

definition room5 :: config where
  "room5 = \<lparr>map_size = 5, move_speed = 1 / 10, show_minimap = True\<rparr>"

definition forward :: keys where
  "forward = \<lparr>K_w = True, K_UP = False, K_s = False, K_DOWN = False, K_q = False,
     K_e = False, K_a = False, K_LEFT = False, K_d = False, K_RIGHT = False\<rparr>"

theorem handle_movement_slides_witness:
  "wf_grid (map_size room5) (simple_maze 5)
   \<and> move_vector (player_angle start_session) (move_speed room5) forward = (1 / 10, 0)
   \<and> player_x (handle_movement room5 (simple_maze 5) (Some forward) start_session) = 16 / 10
   \<and> player_y (handle_movement room5 (simple_maze 5) (Some forward) start_session) = 15 / 10"
proof -
  have w: "wf_grid (map_size room5) (simple_maze 5)"
    by (simp add: room5_def wf_simple_maze)
  have m: "move_vector (player_angle start_session) (move_speed room5) forward = (1 / 10, 0)"
    by (simp add: move_vector_def start_session_def room5_def forward_def Let_def)
  have c: "get_cell (simple_maze 5) 1 1 = Some 0" by (rule simple_maze_interior) simp_all
  have k: "walkable room5 (simple_maze 5) (player_x start_session + 1 / 10)
             (player_y start_session + 0)"
    by (simp add: walkable_def start_session_def room5_def py_int_def inb_def c)
  from handle_movement_slides [OF w m] k w m show ?thesis
    by (simp add: start_session_def)
qed

text \<open>
  Claim C8, as stated, fails: from the start pose (heading 0) one tick with the left
  key held stores the heading -0.04, outside \<open>[0, 2\<pi>)\<close>.
\<close>

theorem heading_not_normalized:
  "\<not> (0 \<le> player_angle (handle_movement EASY_CONFIG (simple_maze 15)
          (Some \<lparr>K_w = False, K_UP = False, K_s = False, K_DOWN = False, K_q = False,
                 K_e = False, K_a = True, K_LEFT = False, K_d = False, K_RIGHT = False\<rparr>)
          start_session)
      \<and> player_angle (handle_movement EASY_CONFIG (simple_maze 15)
          (Some \<lparr>K_w = False, K_UP = False, K_s = False, K_DOWN = False, K_q = False,
                 K_e = False, K_a = True, K_LEFT = False, K_d = False, K_RIGHT = False\<rparr>)
          start_session) < 2 * pi)"
  by (simp add: handle_movement_def move_vector_def turn_def start_session_def
      ROTATION_SPEED_def Let_def)

lemma py_fmod_range:
  assumes "0 < m"
  shows "0 \<le> py_fmod x m" and "py_fmod x m < m"
proof -
  have a: "of_int \<lfloor>x / m\<rfloor> \<le> x / m" and b: "x / m < of_int \<lfloor>x / m\<rfloor> + 1" by linarith+
  have e: "m * (x / m) = x" using assms by simp
  have "m * of_int \<lfloor>x / m\<rfloor> \<le> m * (x / m)"
    using a assms by (intro mult_left_mono) simp_all
  then have "m * of_int \<lfloor>x / m\<rfloor> \<le> x" unfolding e .
  then show "0 \<le> py_fmod x m" by (simp add: py_fmod_def)
  have "m * (x / m) < m * (of_int \<lfloor>x / m\<rfloor> + 1)"
    using b assms by (intro mult_strict_left_mono) simp_all
  then have "x < m * (of_int \<lfloor>x / m\<rfloor> + 1)" unfolding e .
  then show "py_fmod x m < m" by (simp add: py_fmod_def algebra_simps)
qed

text \<open>
  Claim C8, amended. The stored heading is not wrapped: input handling subtracts
  \<open>ROTATION_SPEED\<close> when a left key is held and adds it when a right key is held, and
  leaves the heading as it was otherwise. What is normalized to \<open>[0, 2\<pi>)\<close> is the angle
  of each ray that \<open>draw_3d_view\<close> derives from the heading.
\<close>

theorem heading_turns_unnormalized:
  "player_angle (handle_movement cfg maze (Some ks) s)
     = player_angle s - (if K_a ks \<or> K_LEFT ks then ROTATION_SPEED else 0)
                        + (if K_d ks \<or> K_RIGHT ks then ROTATION_SPEED else 0)
   \<and> player_angle (handle_movement cfg maze None s) = player_angle s
   \<and> 0 \<le> ray_angle (player_angle (handle_movement cfg maze (Some ks) s)) column
   \<and> ray_angle (player_angle (handle_movement cfg maze (Some ks) s)) column < 2 * pi"
proof -
  have "player_angle (handle_movement cfg maze (Some ks) s) = turn (player_angle s) ks"
    by (auto simp: handle_movement_def resolve_move_def Let_def split: option.splits)
  then have "player_angle (handle_movement cfg maze (Some ks) s)
     = player_angle s - (if K_a ks \<or> K_LEFT ks then ROTATION_SPEED else 0)
                        + (if K_d ks \<or> K_RIGHT ks then ROTATION_SPEED else 0)"
    by (simp add: turn_def Let_def)
  moreover have "player_angle (handle_movement cfg maze None s) = player_angle s"
    by (simp add: handle_movement_def)
  moreover have "(0::real) < 2 * pi" by simp
  ultimately show ?thesis unfolding ray_angle_def
    using py_fmod_range [of "2 * pi"] by blast
qed

definition left_held :: keys where
  "left_held = \<lparr>K_w = False, K_UP = False, K_s = False, K_DOWN = False, K_q = False,
     K_e = False, K_a = False, K_LEFT = True, K_d = False, K_RIGHT = False\<rparr>"

theorem heading_turns_unnormalized_witness:
  "player_angle (handle_movement EASY_CONFIG (simple_maze 15) (Some left_held) start_session)
     = - (4 / 100)
   \<and> 0 \<le> ray_angle (player_angle
           (handle_movement EASY_CONFIG (simple_maze 15) (Some left_held) start_session)) 400
   \<and> ray_angle (player_angle
           (handle_movement EASY_CONFIG (simple_maze 15) (Some left_held) start_session)) 400
       < 2 * pi"
proof -
  note h = heading_turns_unnormalized [of EASY_CONFIG "simple_maze 15" left_held
      start_session 400]
  from h have "player_angle
      (handle_movement EASY_CONFIG (simple_maze 15) (Some left_held) start_session)
      = player_angle start_session
        - (if K_a left_held \<or> K_LEFT left_held then ROTATION_SPEED else 0)
        + (if K_d left_held \<or> K_RIGHT left_held then ROTATION_SPEED else 0)"
    by (rule conjunct1)
  also have "\<dots> = - (4 / 100)"
    by (simp add: start_session_def left_held_def ROTATION_SPEED_def)
  finally show ?thesis using h by blast
qed

text \<open>
  Claim C9. The wall colour intensity of a column is a non-increasing function of the
  raw ray distance: linear with slope -20 from 255, clamped below at the floor 50 and
  above at 255. So \<open>d1 \<le> d2\<close> gives an intensity at \<open>d2\<close> that is at most the one at
  \<open>d1\<close>, and every intensity is at least 50.
\<close>

theorem color_intensity_fades:
  assumes "d1 \<le> d2"
  shows "color_intensity d2 \<le> color_intensity d1
       \<and> 50 \<le> color_intensity d2 \<and> color_intensity d1 \<le> 255
       \<and> color_intensity d1 = (if d1 \<le> 0 then 255 else if d1 \<le> 41 / 4 then 255 - 20 * d1 else 50)"
  using assms by (auto simp: color_intensity_def min_def max_def)

theorem color_intensity_fades_witness:
  "(1::real) \<le> 2 \<and> color_intensity 2 \<le> color_intensity 1
   \<and> color_intensity 1 = 235 \<and> color_intensity 2 = 215 \<and> color_intensity 12 = 50"
  using color_intensity_fades [of 1 2] color_intensity_fades [of 12 12]
    color_intensity_fades [of 2 2]
  by simp

section \<open>Winning and the result of run_game\<close>

text \<open>The states a run of the loop passes through: \<open>reachable \<dots> n s\<close> after \<open>n\<close> passes.\<close>

inductive reachable ::
  "config \<Rightarrow> grid \<Rightarrow> real \<Rightarrow> (nat \<Rightarrow> tick_input) \<Rightarrow> nat \<Rightarrow> session \<Rightarrow> bool"
  for cfg :: config and maze :: grid and start_time :: real and inputs :: "nat \<Rightarrow> tick_input" where
  start: "reachable cfg maze start_time inputs 0 start_session"
| pass: "reachable cfg maze start_time inputs n s \<Longrightarrow> running s
         \<Longrightarrow> tick cfg maze start_time (inputs n) s = (s', e) \<Longrightarrow> e \<noteq> Blocked
         \<Longrightarrow> reachable cfg maze start_time inputs (Suc n) s'"

lemma handle_movement_flags:
  "running (handle_movement cfg maze ko s) = running s"
  "game_completed (handle_movement cfg maze ko s) = game_completed s"
  "completion_time (handle_movement cfg maze ko s) = completion_time s"
  by (auto simp: handle_movement_def resolve_move_def Let_def split: option.splits)

lemma tick_cases:
  assumes "\<not> game_completed s"
  shows "(\<not> game_completed (fst (tick cfg maze t0 inp s))
            \<and> completion_time (fst (tick cfg maze t0 inp s)) = completion_time s
            \<and> (at_exit cfg (fst (tick cfg maze t0 inp s)) \<longrightarrow> at_exit cfg s))
       \<or> (game_completed (fst (tick cfg maze t0 inp s))
            \<and> at_exit cfg (fst (tick cfg maze t0 inp s))
            \<and> completion_time (fst (tick cfg maze t0 inp s)) = now inp - t0
            \<and> (snd (tick cfg maze t0 inp s) \<noteq> Blocked \<longrightarrow> \<not> running (fst (tick cfg maze t0 inp s))))"
proof (cases "events inp")
  case None
  then show ?thesis using assms by (simp add: tick_def at_exit_def)
next
  case (Some evs)
  let ?s1 = "handle_movement cfg maze (pressed inp) (s\<lparr>running := drain_events evs (running s)\<rparr>)"
  have f: "\<not> game_completed ?s1" "completion_time ?s1 = completion_time s"
    using assms by (simp_all add: handle_movement_flags)
  show ?thesis
  proof (cases "at_exit cfg ?s1")
    case True
    then show ?thesis using assms Some
      by (simp add: tick_def Let_def at_exit_def split: option.splits)
  next
    case False
    then have "fst (tick cfg maze t0 inp s)
               = (if render_fault inp then ?s1\<lparr>running := False\<rparr> else ?s1)"
      using assms Some by (simp add: tick_def Let_def)
    then have e: "fst (tick cfg maze t0 inp s) = ?s1
        \<or> fst (tick cfg maze t0 inp s) = ?s1\<lparr>running := False\<rparr>"
      by (simp split: if_splits)
    have a: "at_exit cfg (?s1\<lparr>running := False\<rparr>) = at_exit cfg ?s1"
      by (simp add: at_exit_def)
    from e have "at_exit cfg (fst (tick cfg maze t0 inp s)) = at_exit cfg ?s1"
      using a by auto
    moreover from e have "\<not> game_completed (fst (tick cfg maze t0 inp s))"
      using f(1) by auto
    moreover from e have "completion_time (fst (tick cfg maze t0 inp s)) = completion_time s"
      using f(2) by auto
    ultimately show ?thesis using False by simp
  qed
qed



text \<open>
  Claim C6. In a pass of the loop that starts not completed with the pose outside the
  exit cell and brings the truncated coordinates of the pose to the exit cell, the
  same pass sets \<open>game_completed\<close> and records the completion time as the clock minus
  the start time; the loop then ends with this pass (unless the modal wait of the win
  screen never returns). Every pass of a run starts so (\<open>reachable_inv\<close>).
\<close>

theorem win_on_same_tick:
  assumes "\<not> game_completed s" and "\<not> at_exit cfg s"
    and "at_exit cfg (fst (tick cfg maze start_time inp s))"
  shows "game_completed (fst (tick cfg maze start_time inp s))
       \<and> completion_time (fst (tick cfg maze start_time inp s)) = now inp - start_time
       \<and> (snd (tick cfg maze start_time inp s) = Blocked
            \<or> \<not> running (fst (tick cfg maze start_time inp s)))"
  using tick_cases [OF assms(1), of cfg maze start_time inp] assms(2,3) by auto

definition near_exit :: session where
  "near_exit = \<lparr>player_x = 1295 / 100, player_y = 135 / 10, player_angle = 0,
     running = True, game_completed = False, completion_time = 0\<rparr>"

definition forward_input :: tick_input where
  "forward_input = \<lparr>events = Some [], pressed = Some forward, now = 7, win_fault = False,
     wait_events = (\<lambda>n. [KEYDOWN K_OTHER]), render_fault = False\<rparr>"

theorem win_on_same_tick_witness:
  "\<not> game_completed near_exit \<and> \<not> at_exit EASY_CONFIG near_exit
   \<and> at_exit EASY_CONFIG (fst (tick EASY_CONFIG (simple_maze 15) 2 forward_input near_exit))
   \<and> game_completed (fst (tick EASY_CONFIG (simple_maze 15) 2 forward_input near_exit))
   \<and> completion_time (fst (tick EASY_CONFIG (simple_maze 15) 2 forward_input near_exit)) = 5
   \<and> \<not> running (fst (tick EASY_CONFIG (simple_maze 15) 2 forward_input near_exit))"
proof -
  have c: "get_cell (simple_maze 15) 13 13 = Some 0" by (rule simple_maze_interior) simp_all
  have m: "handle_movement EASY_CONFIG (simple_maze 15) (Some forward) near_exit
           = near_exit\<lparr>player_x := 1305 / 100\<rparr>"
    by (simp add: handle_movement_def move_vector_def turn_def resolve_move_def can_move_def
        near_exit_def forward_def EASY_CONFIG_def py_int_def c Let_def)
  have w: "wait_loop (\<lambda>n. [KEYDOWN K_OTHER]) 0 = Some ()"
    by (subst wait_loop.simps) simp
  have a: "at_exit EASY_CONFIG (near_exit\<lparr>player_x := 1305 / 100\<rparr>)"
    by (simp add: at_exit_def near_exit_def EASY_CONFIG_def py_int_def)
  have t: "tick EASY_CONFIG (simple_maze 15) 2 forward_input near_exit
           = (near_exit\<lparr>player_x := 1305 / 100, completion_time := 5,
                game_completed := True, running := False\<rparr>, Waited)"
    using a m unfolding near_exit_def
    by (simp add: tick_def forward_input_def w Let_def)
  have n: "\<not> game_completed near_exit" "\<not> at_exit EASY_CONFIG near_exit"
    by (simp_all add: near_exit_def at_exit_def EASY_CONFIG_def py_int_def)
  have a': "at_exit EASY_CONFIG (fst (tick EASY_CONFIG (simple_maze 15) 2 forward_input near_exit))"
    using a by (simp add: t at_exit_def)
  from win_on_same_tick [OF n a'] n a' show ?thesis
    by (simp add: t)
qed
























end
